theory Spec2Isabelle
  imports Complex_Main "HOL-Library.AList" "HOL-Library.Multiset"
begin

section \<open>Shared data: resource types, Python conversions, errors\<close>

text \<open>
  The planners of this repository are Python classes driven by an external simulator.
  Python floats are idealised as real numbers (rounding error is not modelled), Python
  ints as \<open>int\<close>. Exceptions are values of \<open>py_error\<close>.
\<close>

datatype ResourceType = OR | A_BED | B_BED | INTAKE | ER_PRACTITIONER

datatype py_error = KeyError | OverflowError | ZeroDivisionError | ValueError

text \<open>Python's \<open>int(x)\<close> on a float truncates toward zero.\<close>

definition py_int :: "real \<Rightarrow> int" where
  "py_int x = (if 0 \<le> x then \<lfloor>x\<rfloor> else \<lceil>x\<rceil>)"

text \<open>Python's \<open>t % m\<close> for a float \<open>t\<close> and a positive int \<open>m\<close>: the result lies in \<open>[0, m)\<close>.\<close>

definition py_fmod :: "real \<Rightarrow> int \<Rightarrow> real" where
  "py_fmod t m = t - of_int m * of_int \<lfloor>t / of_int m\<rfloor>"

text \<open>\<open>d.get(key, default)\<close> on a dictionary kept as an association list.\<close>

definition dict_get :: "('k \<times> 'v) list \<Rightarrow> 'k \<Rightarrow> 'v \<Rightarrow> 'v" where
  "dict_get d k dflt = (case map_of d k of None \<Rightarrow> dflt | Some v \<Rightarrow> v)"

section \<open>or.py: the admission-wave planner\<close>

subsection \<open>Time helpers and the capacity table\<close>

definition next_8am_at_or_after :: "real \<Rightarrow> int" where
  "next_8am_at_or_after t =
     (let hod = py_int (py_fmod t 24);
          base = py_int (t - of_int hod)
      in if hod \<le> 8 then base + 8 else base + 32)"

definition dow_1_to_7 :: "int \<Rightarrow> int" where
  "dow_1_to_7 t = ((t div 24) mod 7) + 1"

text \<open>
  \<open>WEEKLY_CAP\<close>, already converted by the constructor to the tuple-keyed schedule
  \<open>(ResourceType, day 1..7) -> int\<close>.
\<close>

definition WEEKLY_CAP :: "ResourceType \<times> int \<rightharpoonup> int" where
  "WEEKLY_CAP = (\<lambda>(r, d).
     if 1 \<le> d \<and> d \<le> 7
     then Some (case r of OR \<Rightarrow> 5 | A_BED \<Rightarrow> 30 | B_BED \<Rightarrow> 40 | INTAKE \<Rightarrow> 4
                | ER_PRACTITIONER \<Rightarrow> 9)
     else None)"

text \<open>
  The planner object: \<open>cap\<close> is the capacity schedule, \<open>used\<close> the ledger
  \<open>(week, day, hour) -> admits\<close>. The ledger is a Python dict, hence finite; it is kept
  as an association list read through \<open>map_of\<close>.
\<close>

record ORPlanner =
  cap :: "ResourceType \<times> int \<rightharpoonup> int"
  used :: "((int \<times> int \<times> int) \<times> int) list"

definition ORPlanner_init :: "ORPlanner" where
  "ORPlanner_init = \<lparr> cap = WEEKLY_CAP, used = [] \<rparr>"

subsection \<open>Daily quota and the wave split\<close>

definition daily_quota :: "(ResourceType \<times> int \<rightharpoonup> int) \<Rightarrow> int \<Rightarrow> py_error + int" where
  "daily_quota c d =
     (case c (INTAKE, d) of None \<Rightarrow> Inl KeyError | Some i \<Rightarrow>
     (case c (ER_PRACTITIONER, d) of None \<Rightarrow> Inl KeyError | Some er \<Rightarrow>
     (case c (A_BED, d) of None \<Rightarrow> Inl KeyError | Some a \<Rightarrow>
     (case c (B_BED, d) of None \<Rightarrow> Inl KeyError | Some b \<Rightarrow>
        (let beds = a + b;
             q = min (min (14 * i) (6 * er)) beds
         in Inr (max 48 (min q 64)))))))"

text \<open>
  Python's \<open>sorted(xs, key=k, reverse=True)\<close> is a stable descending sort: elements with
  equal keys keep their original order. That is a stable ascending sort by the negated key.
\<close>

definition sorted_reverse :: "('a \<Rightarrow> real) \<Rightarrow> 'a list \<Rightarrow> 'a list" where
  "sorted_reverse k xs = sort_key (\<lambda>x. - k x) xs"

definition split_quota :: "int \<Rightarrow> real list \<Rightarrow> int list" where
  "split_quota total_q fractions =
     (let raw = map (\<lambda>f. f * of_int total_q) fractions;
          ints = map py_int raw;
          leftover = total_q - sum_list ints
      in if leftover > 0
         then (let order = sorted_reverse (\<lambda>i. raw ! i - of_int (ints ! i)) [0..<length raw]
               in fold (\<lambda>i xs. xs[i := xs ! i + 1]) (take (nat leftover) order) ints)
         else ints)"

definition waves :: "int list" where
  "waves = [0, 2, 4, 6, 8, 12]"

definition wave_frac :: "real list" where
  "wave_frac = [36 / 100, 22 / 100, 16 / 100, 12 / 100, 8 / 100, 6 / 100]"

text \<open>
  The backlog-aware and warm-start adjustment of the day quota. The source writes it
  inline twice (two-day horizon and roll-forward loop); the copies differ only in the
  value of \<open>days_since_epoch\<close>, which is a parameter here.
\<close>

definition adjust_quota :: "int \<Rightarrow> int \<Rightarrow> int \<Rightarrow> int" where
  "adjust_quota quota_day backlog days_since_epoch =
     (let boost = min (quota_day div 2) (backlog div 6);
          warm = days_since_epoch < 14;
          floor_q = (if warm then 56 else 50);
          cap_max = (if warm \<or> backlog > 150 then 72 else 64)
      in min cap_max (max floor_q (quota_day + boost)))"

subsection \<open>Placing cases\<close>

text \<open>
  \<open>for _ in range(k): out.append((pending.pop(), tslot))\<close>: \<open>pop()\<close> takes the last
  element. Both call sites compute \<open>k = min(cap, len(pending))\<close>, so the list is never
  popped empty.
\<close>

primrec pop_k :: "nat \<Rightarrow> 'c list \<Rightarrow> int \<Rightarrow> ('c \<times> int) list \<Rightarrow> 'c list \<times> ('c \<times> int) list" where
  "pop_k 0 pending tslot out = (pending, out)"
| "pop_k (Suc k) pending tslot out =
     pop_k k (butlast pending) tslot (out @ [(last pending, tslot)])"

type_synonym ledger_key = "int \<times> int \<times> int"
type_synonym slot = "int \<times> int \<times> ledger_key"
type_synonym 'c fill_state = "'c list \<times> (ledger_key \<times> int) list \<times> ('c \<times> int) list"

text \<open>
  One day of the two-day horizon (the body of \<open>for day_offset in (0, 1)\<close>): the list of
  \<open>[tslot, cap, key]\<close> entries of the day's six waves. \<open>backlog\<close> is
  \<open>len(pending) + len(cases_to_replan)\<close>.
\<close>

definition horizon_day ::
  "(ResourceType \<times> int \<rightharpoonup> int) \<Rightarrow> (ledger_key \<times> int) list \<Rightarrow> int \<Rightarrow> int \<Rightarrow> int
     \<Rightarrow> py_error + slot list" where
  "horizon_day c u base8 backlog day_offset =
     (let day_start = base8 + 24 * day_offset;
          d = dow_1_to_7 day_start;
          w = day_start div 168
      in case daily_quota c d of
           Inl e \<Rightarrow> Inl e
         | Inr quota_day \<Rightarrow>
            (let days_since_epoch = base8 div 24;
                 quota_day = adjust_quota quota_day backlog days_since_epoch;
                 subqs = split_quota quota_day wave_frac
             in Inr (map (\<lambda>idx.
                      (let tslot = day_start + waves ! idx;
                           key = (w, d, tslot mod 24);
                           already = dict_get u key 0;
                           cp = max 0 (subqs ! idx - already)
                       in (tslot, cp, key))) [0..<length waves])))"

text \<open>
  The body of the fill loop for one slot. The \<open>break\<close> on an empty queue is the first
  test: once the queue is empty no later slot changes anything.
\<close>

definition fill_slot :: "slot \<Rightarrow> 'c fill_state \<Rightarrow> 'c fill_state" where
  "fill_slot sl st =
     (case sl of (tslot, cp, key) \<Rightarrow>
      case st of (pending, u, out) \<Rightarrow>
        if pending = [] then st
        else (let k = min cp (int (length pending))
              in if k \<le> 0 then st
                 else (case pop_k (nat k) pending tslot out of
                         (pending', out') \<Rightarrow>
                           (pending', AList.update key (dict_get u key 0 + k) u, out'))))"

text \<open>The body of \<open>for i, h_after in enumerate(waves)\<close> in the roll-forward loop.\<close>

definition roll_wave :: "int list \<Rightarrow> int \<Rightarrow> int \<Rightarrow> int \<Rightarrow> nat \<Rightarrow> 'c fill_state \<Rightarrow> 'c fill_state" where
  "roll_wave subqs day_start w d i st =
     (case st of (pending, u, out) \<Rightarrow>
        if pending = [] then st
        else (let tslot = day_start + waves ! i;
                  key = (w, d, tslot mod 24);
                  already = dict_get u key 0;
                  cp = max 0 (subqs ! i - already);
                  k = min cp (int (length pending))
              in case pop_k (nat k) pending tslot out of
                   (pending', out') \<Rightarrow>
                     (pending', AList.update key (dict_get u key 0 + k) u, out')))"

text \<open>One iteration of \<open>while pending\<close>: a whole day at offset \<open>day_offset\<close>.\<close>

definition roll_day ::
  "(ResourceType \<times> int \<rightharpoonup> int) \<Rightarrow> int \<Rightarrow> int \<Rightarrow> int \<Rightarrow> 'c fill_state \<Rightarrow> py_error + 'c fill_state" where
  "roll_day c base8 n_replan day_offset st =
     (let day_start = base8 + 24 * day_offset;
          d = dow_1_to_7 day_start;
          w = day_start div 168
      in case daily_quota c d of
           Inl e \<Rightarrow> Inl e
         | Inr quota_day \<Rightarrow>
            (let backlog = int (length (fst st)) + n_replan;
                 days_since_epoch = base8 div 24 + day_offset;
                 quota_day = adjust_quota quota_day backlog days_since_epoch;
                 subqs = split_quota quota_day wave_frac
             in Inr (fold (roll_wave subqs day_start w d) [0..<length waves] st)))"

text \<open>
  Ghost measure for the roll-forward loop: the calendar day of a ledger key, and how far
  the ledger reaches beyond the day \<open>cur\<close>.
\<close>

definition key_day :: "ledger_key \<Rightarrow> int" where
  "key_day k = (case k of (w, d, h) \<Rightarrow> 7 * w + d - 1)"

definition ledger_reach :: "(ledger_key \<times> int) list \<Rightarrow> int \<Rightarrow> nat" where
  "ledger_reach u cur = nat (Max (insert cur ((\<lambda>e. key_day (fst e) + 1) ` set u)) - cur)"

section \<open>The process-mining script: the calibration extractor\<close>

text \<open>
  A row of the event log, reduced to what the duration loop reads: the activity label and
  the start and completion timestamps, in seconds; \<open>None\<close> is a missing timestamp
  (\<open>NaT\<close>). A float that may be \<open>NaN\<close> is a \<open>py_float\<close>.
\<close>

datatype py_float = Num real | NaN

type_synonym event_row = "string \<times> real option \<times> real option"

definition duration :: "event_row \<Rightarrow> real option" where
  "duration r =
     (case r of (label, start_time, completion_time) \<Rightarrow>
        (case start_time of
           None \<Rightarrow> None
         | Some s \<Rightarrow> (case completion_time of None \<Rightarrow> None | Some c \<Rightarrow> Some (c - s))))"

text \<open>\<open>Series.unique()\<close>: the distinct values in order of first appearance.\<close>

definition unique :: "'a list \<Rightarrow> 'a list" where
  "unique xs = rev (remdups (rev xs))"

text \<open>The values of a series that are not \<open>NaN\<close>.\<close>

definition dropna :: "real option list \<Rightarrow> real list" where
  "dropna ds = map the (filter (\<lambda>d. d \<noteq> None) ds)"

text \<open>
  \<open>Series.mean()\<close> and \<open>Series.std()\<close> skip missing values; \<open>std\<close> is the sample
  standard deviation (\<open>ddof = 1\<close>), \<open>NaN\<close> with fewer than two values.
\<close>

definition series_mean :: "real option list \<Rightarrow> py_float" where
  "series_mean ds =
     (let xs = dropna ds
      in if xs = [] then NaN else Num (sum_list xs / of_nat (length xs)))"

definition series_std :: "real option list \<Rightarrow> py_float" where
  "series_std ds =
     (let xs = dropna ds; n = length xs
      in if n < 2 then NaN
         else (let m = sum_list xs / of_nat n
               in Num (sqrt (sum_list (map (\<lambda>x. (x - m)\<^sup>2) xs) / of_nat (n - 1)))))"

text \<open>The body of \<open>for activity in activities\<close>: the entries written for one activity, if any.\<close>

definition activity_stats :: "event_row list \<Rightarrow> string \<Rightarrow> (py_float \<times> py_float) option" where
  "activity_stats df activity =
     (let activity_rows = filter (\<lambda>r. fst r = activity) df
      in if length activity_rows > 0
         then (let durations = map duration activity_rows;
                   all_na = list_all (\<lambda>d. d = None) durations
               in Some (if \<not> all_na then series_mean durations else Num 3600,
                        if \<not> all_na then series_std durations else Num 1800))
         else None)"

definition pm_params :: "event_row list \<Rightarrow> (string \<rightharpoonup> py_float) \<times> (string \<rightharpoonup> py_float)" where
  "pm_params df =
     fold (\<lambda>activity (mean_sec, std_sec).
             case activity_stats df activity of
               None \<Rightarrow> (mean_sec, std_sec)
             | Some (m, s) \<Rightarrow> (mean_sec(activity \<mapsto> m), std_sec(activity \<mapsto> s)))
          (unique (map fst df)) (Map.empty, Map.empty)"

section \<open>Lemmas: the wave split\<close>


lemma bump_nth:
  "distinct ids \<Longrightarrow> j < length xs \<Longrightarrow>
   fold (\<lambda>i xs. xs[i := xs ! i + (1::int)]) ids xs ! j
     = xs ! j + (if j \<in> set ids then 1 else 0)"
proof (induction ids arbitrary: xs)
  case Nil then show ?case by simp
next
  case (Cons i ids)
  have len: "j < length (xs[i := xs ! i + 1])" using Cons.prems by simp
  have d: "distinct ids" "i \<notin> set ids" using Cons.prems by simp_all
  show ?case
  proof (cases "i = j")
    case True
    then show ?thesis using Cons.IH[OF d(1) len] d(2) Cons.prems(2) by simp
  next
    case False
    then show ?thesis using Cons.IH[OF d(1) len] by simp
  qed
qed


text \<open>Descending by key, ties by position: the order a stable descending sort produces.\<close>

definition tie_order :: "(nat \<Rightarrow> real) \<Rightarrow> nat \<Rightarrow> nat \<Rightarrow> bool" where
  "tie_order k i j = (k i < k j \<or> (k i = k j \<and> i < j))"

lemma insort_tie_order:
  "sorted_wrt (tie_order k) ys \<Longrightarrow> \<forall>y\<in>set ys. x < y \<Longrightarrow>
   sorted_wrt (tie_order k) (insort_key k x ys)"
proof (induction ys)
  case Nil then show ?case by simp
next
  case (Cons y ys)
  show ?case
  proof (cases "k x \<le> k y")
    case True
    have "\<forall>z\<in>set ys. k y \<le> k z" using Cons.prems(1) by (auto simp: tie_order_def)
    then have "\<forall>z\<in>set (y # ys). tie_order k x z"
      using True Cons.prems(2) by (fastforce simp: tie_order_def)
    then show ?thesis using True Cons.prems(1) by simp
  next
    case False
    have t: "sorted_wrt (tie_order k) (insort_key k x ys)"
      using Cons.IH Cons.prems by simp
    have "tie_order k y x" using False by (simp add: tie_order_def)
    then show ?thesis using False t Cons.prems(1) by (auto simp: set_insort_key)
  qed
qed

lemma sort_key_tie_order:
  "sorted_wrt (<) xs \<Longrightarrow> sorted_wrt (tie_order k) (sort_key k xs)"
proof (induction xs)
  case Nil then show ?case by simp
next
  case (Cons x xs)
  then show ?case by (simp add: insort_tie_order)
qed

lemma sorted_reverse_props:
  "set (sorted_reverse k [0..<n]) = {0..<n}"
  "distinct (sorted_reverse k [0..<n])"
  "length (sorted_reverse k [0..<n]) = n"
  "sorted_wrt (tie_order (\<lambda>i. - k i)) (sorted_reverse k [0..<n])"
  by (simp_all add: sorted_reverse_def sort_key_tie_order)



lemma py_int_nonneg: "0 \<le> x \<Longrightarrow> py_int x = \<lfloor>x\<rfloor>"
  by (simp add: py_int_def)


text \<open>
  The indices that \<open>split_quota\<close> increments: the first \<open>leftover\<close> entries of \<open>order\<close>.
\<close>

definition bumped :: "int \<Rightarrow> real list \<Rightarrow> nat list" where
  "bumped T fs =
     (let raw = map (\<lambda>f. f * of_int T) fs;
          ints = map py_int raw;
          leftover = T - sum_list ints
      in if leftover > 0
         then take (nat leftover) (sorted_reverse (\<lambda>i. raw ! i - of_int (ints ! i)) [0..<length raw])
         else [])"

lemma split_quota_bumped:
  "split_quota T fs =
     fold (\<lambda>i xs. xs[i := xs ! i + 1]) (bumped T fs) (map (\<lambda>f. py_int (f * of_int T)) fs)"
  by (simp add: split_quota_def bumped_def Let_def comp_def)

lemma bumped_distinct: "distinct (bumped T fs)"
  by (simp add: bumped_def Let_def sorted_reverse_props)



lemma split_quota_nth:
  "i < length fs \<Longrightarrow>
   split_quota T fs ! i = py_int (fs ! i * of_int T) + (if i \<in> set (bumped T fs) then 1 else 0)"
  by (simp add: split_quota_bumped bump_nth bumped_distinct)




section \<open>Lemmas: placing cases\<close>

lemma pop_k_spec:
  "k \<le> length pending \<Longrightarrow>
   pop_k k pending t out =
     (take (length pending - k) pending,
      out @ map (\<lambda>c. (c, t)) (rev (drop (length pending - k) pending)))"
proof (induction k arbitrary: pending out)
  case 0 then show ?case by simp
next
  case (Suc k)
  then obtain ys y where p: "pending = ys @ [y]"
    by (cases pending rule: rev_cases) auto
  have kk: "k \<le> length ys" using Suc.prems p by simp
  show ?case using Suc.IH[OF kk] kk by (simp add: p)
qed

lemma dict_get_update:
  "dict_get (AList.update k v u) k' dflt = (if k' = k then v else dict_get u k' dflt)"
  by (simp add: dict_get_def update_conv')

lemma keys_update: "fst ` set (AList.update k v u) = insert k (fst ` set u)"
  by (simp add: dom_update)

lemma dict_get_fresh: "k \<notin> fst ` set u \<Longrightarrow> dict_get u k dflt = dflt"
  using map_of_eq_None_iff[of u k] by (simp add: dict_get_def)

text \<open>
  The effect of placing \<open>n\<close> cases at one slot: both loops of \<open>plan\<close> perform this step.
\<close>

definition place :: "int \<Rightarrow> ledger_key \<Rightarrow> nat \<Rightarrow> 'c fill_state \<Rightarrow> 'c fill_state" where
  "place tslot key n st =
     (case st of (pending, u, out) \<Rightarrow>
        (take (length pending - n) pending,
         AList.update key (dict_get u key 0 + int n) u,
         out @ map (\<lambda>c. (c, tslot)) (rev (drop (length pending - n) pending))))"

lemma roll_wave_place:
  "roll_wave subqs ds w d i (pending, u, out) =
     (if pending = [] then (pending, u, out)
      else place (ds + waves ! i) (w, d, (ds + waves ! i) mod 24)
             (nat (min (max 0 (subqs ! i - dict_get u (w, d, (ds + waves ! i) mod 24) 0))
                       (int (length pending)))) (pending, u, out))"
  by (simp add: roll_wave_def place_def Let_def pop_k_spec)

lemma fill_slot_place:
  "fill_slot (tslot, cp, key) (pending, u, out) =
     (if pending = [] \<or> min cp (int (length pending)) \<le> 0 then (pending, u, out)
      else place tslot key (nat (min cp (int (length pending)))) (pending, u, out))"
  by (simp add: fill_slot_def place_def Let_def pop_k_spec)

lemma roll_wave_length: "length (fst (roll_wave subqs ds w d i st)) \<le> length (fst st)"
  by (cases st) (simp add: roll_wave_place place_def)

lemma roll_wave_keys:
  "fst ` set (fst (snd (roll_wave subqs ds w d i st)))
     \<subseteq> insert (w, d, (ds + waves ! i) mod 24) (fst ` set (fst (snd st)))"
  by (cases st) (auto simp: roll_wave_place place_def keys_update)

lemma fold_roll_wave_length:
  "length (fst (fold (roll_wave subqs ds w d) is st)) \<le> length (fst st)"
proof (induction "is" arbitrary: st)
  case Nil then show ?case by simp
next
  case (Cons i "is")
  show ?case using Cons.IH[of "roll_wave subqs ds w d i st"] roll_wave_length[of subqs ds w d i st]
    by simp
qed

lemma fold_roll_wave_days:
  "key_day ` fst ` set (fst (snd (fold (roll_wave subqs ds w d) is st)))
     \<subseteq> insert (7 * w + d - 1) (key_day ` fst ` set (fst (snd st)))"
proof (induction "is" arbitrary: st)
  case Nil then show ?case by auto
next
  case (Cons i "is")
  have a: "key_day ` fst ` set (fst (snd (roll_wave subqs ds w d i st)))
            \<subseteq> insert (7 * w + d - 1) (key_day ` fst ` set (fst (snd st)))"
    using image_mono[OF roll_wave_keys[of subqs ds w d i st], of key_day]
    by (simp add: key_day_def)
  show ?case using Cons.IH[of "roll_wave subqs ds w d i st"] a by auto
qed

lemma roll_wave_progress:
  assumes "fst st \<noteq> []" and "(w, d, (ds + waves ! i) mod 24) \<notin> fst ` set (fst (snd st))"
    and "1 \<le> subqs ! i"
  shows "length (fst (roll_wave subqs ds w d i st)) < length (fst st)"
proof -
  obtain pending u out where st: "st = (pending, u, out)" by (cases st)
  have g: "dict_get u (w, d, (ds + waves ! i) mod 24) 0 = 0"
    using assms(2) by (simp add: st dict_get_fresh)
  have "pending \<noteq> []" using assms(1) st by simp
  then have "0 < length pending" by simp
  then show ?thesis using assms(3) g \<open>pending \<noteq> []\<close>
    by (simp add: st roll_wave_place place_def)
qed

lemma waves_upt: "[0..<length waves] = [0, 1, 2, 3, 4, 5]"
  by (simp add: waves_def upt_rec)

section \<open>Lemmas: one day of the roll-forward loop\<close>

lemma adjust_quota_range: "50 \<le> adjust_quota q b e \<and> adjust_quota q b e \<le> 72"
  by (auto simp: adjust_quota_def Let_def min_def max_def)

lemma split_quota_wave0:
  assumes "50 \<le> q"
  shows "1 \<le> split_quota q wave_frac ! 0"
proof -
  have "(18::real) \<le> 36 / 100 * of_int q" using assms by simp
  then have "18 \<le> \<lfloor>36 / 100 * real_of_int q\<rfloor>" by (simp add: le_floor_iff)
  moreover have "0 \<le> 36 / 100 * real_of_int q" using assms by simp
  ultimately have "18 \<le> py_int (36 / 100 * real_of_int q)" by (simp add: py_int_nonneg)
  moreover have "split_quota q wave_frac ! 0 \<ge> py_int (wave_frac ! 0 * of_int q)"
    using split_quota_nth[of 0 wave_frac q] by (simp add: wave_frac_def)
  ultimately show ?thesis by (simp add: wave_frac_def)
qed

lemma day_key: "7 * ((b + 24 * off) div 168) + dow_1_to_7 (b + 24 * off) - 1 = b div 24 + off"
proof -
  have "(b + 24 * off) div 168 = ((b + 24 * off) div 24) div 7"
    using zdiv_zmult2_eq[of 7 "b + 24 * off" 24] by simp
  moreover have "(b + 24 * off) div 24 = b div 24 + off" by simp
  ultimately show ?thesis
    using mult_div_mod_eq[of 7 "b div 24 + off"] by (simp add: dow_1_to_7_def add.commute)
qed


lemma roll_day_length:
  "roll_day c base8 n_replan day_offset st = Inr st' \<Longrightarrow> length (fst st') \<le> length (fst st)"
  by (auto simp: roll_day_def Let_def fold_roll_wave_length split: sum.splits)

lemma roll_day_days:
  "roll_day c base8 n_replan day_offset st = Inr st' \<Longrightarrow>
   key_day ` fst ` set (fst (snd st'))
     \<subseteq> insert (base8 div 24 + day_offset) (key_day ` fst ` set (fst (snd st)))"
  using fold_roll_wave_days[of _ "base8 + 24 * day_offset" "(base8 + 24 * day_offset) div 168"
      "dow_1_to_7 (base8 + 24 * day_offset)" "[0..<length waves]" st]
  by (auto simp: roll_day_def Let_def day_key split: sum.splits)

lemma roll_day_progress:
  assumes "roll_day c base8 n_replan day_offset st = Inr st'" and "fst st \<noteq> []"
    and free: "\<forall>k\<in>fst ` set (fst (snd st)). key_day k \<noteq> base8 div 24 + day_offset"
  shows "length (fst st') < length (fst st)"
proof -
  let ?ds = "base8 + 24 * day_offset"
  let ?w = "?ds div 168" and ?d = "dow_1_to_7 ?ds"
  obtain q where q: "daily_quota c ?d = Inr q"
    using assms(1) by (auto simp: roll_day_def Let_def split: sum.splits)
  let ?subqs = "split_quota (adjust_quota q (int (length (fst st)) + n_replan) (base8 div 24 + day_offset)) wave_frac"
  have st': "st' = fold (roll_wave ?subqs ?ds ?w ?d) [0..<length waves] st"
    using assms(1) q by (simp add: roll_day_def Let_def)
  have s0: "1 \<le> ?subqs ! 0"
    using adjust_quota_range by (intro split_quota_wave0) simp
  have nk: "(?w, ?d, (?ds + waves ! 0) mod 24) \<notin> fst ` set (fst (snd st))"
  proof
    assume "(?w, ?d, (?ds + waves ! 0) mod 24) \<in> fst ` set (fst (snd st))"
    then have "key_day (?w, ?d, (?ds + waves ! 0) mod 24) \<noteq> base8 div 24 + day_offset"
      using free by blast
    then show False by (simp add: key_day_def day_key)
  qed
  have "length (fst (roll_wave ?subqs ?ds ?w ?d 0 st)) < length (fst st)"
    by (rule roll_wave_progress[OF assms(2) nk s0])
  moreover have "length (fst st') \<le> length (fst (roll_wave ?subqs ?ds ?w ?d 0 st))"
    unfolding st' waves_upt using fold_roll_wave_length[of ?subqs ?ds ?w ?d "[1,2,3,4,5]"]
    by simp
  ultimately show ?thesis by simp
qed

lemma ledger_reach_zero:
  "ledger_reach u cur = 0 \<Longrightarrow> \<forall>k\<in>fst ` set u. key_day k \<noteq> cur"
proof
  fix k assume z: "ledger_reach u cur = 0" and k: "k \<in> fst ` set u"
  have fin: "finite (insert cur ((\<lambda>e. key_day (fst e) + 1) ` set u))" by simp
  have "key_day k + 1 \<in> insert cur ((\<lambda>e. key_day (fst e) + 1) ` set u)" using k by auto
  then have "key_day k + 1 \<le> Max (insert cur ((\<lambda>e. key_day (fst e) + 1) ` set u))"
    using Max_ge[OF fin] by blast
  moreover have "Max (insert cur ((\<lambda>e. key_day (fst e) + 1) ` set u)) \<le> cur"
    using z unfolding ledger_reach_def by linarith
  ultimately show "key_day k \<noteq> cur" by linarith
qed

lemma ledger_reach_step:
  assumes "key_day ` fst ` set u' \<subseteq> insert cur (key_day ` fst ` set u)"
    and "ledger_reach u cur \<noteq> 0"
  shows "ledger_reach u' (cur + 1) < ledger_reach u cur"
proof -
  let ?S = "insert cur ((\<lambda>e. key_day (fst e) + 1) ` set u)"
  let ?S' = "insert (cur + 1) ((\<lambda>e. key_day (fst e) + 1) ` set u')"
  have "nat (Max ?S - cur) \<noteq> 0" using assms(2) unfolding ledger_reach_def .
  then have M: "cur + 1 \<le> Max ?S" by linarith
  have "\<forall>x\<in>?S'. x \<le> Max ?S"
  proof
    fix x assume "x \<in> ?S'"
    then consider "x = cur + 1" | e where "e \<in> set u'" "x = key_day (fst e) + 1" by auto
    then show "x \<le> Max ?S"
    proof cases
      case 1 then show ?thesis using M by simp
    next
      case 2
      then have "key_day (fst e) \<in> insert cur (key_day ` fst ` set u)" using assms(1) by auto
      then consider "key_day (fst e) = cur" | e0 where "e0 \<in> set u" "key_day (fst e) = key_day (fst e0)"
        by auto
      then show ?thesis
      proof cases
        case 1 then show ?thesis using M 2 by simp
      next
        case 2
        then have "key_day (fst e0) + 1 \<in> ?S" by auto
        then have "key_day (fst e0) + 1 \<le> Max ?S" by (intro Max_ge) simp_all
        then show ?thesis using 2 \<open>x = key_day (fst e) + 1\<close> by simp
      qed
    qed
  qed
  then have b: "\<And>a. a \<in> ?S' \<Longrightarrow> a \<le> Max ?S" by blast
  have "Max ?S' \<le> Max ?S"
  proof (rule Max.boundedI)
    show "finite ?S'" by simp
    show "?S' \<noteq> {}" by simp
  qed (rule b)
  then show ?thesis using M unfolding ledger_reach_def by linarith
qed

section \<open>or.py: the roll-forward loop and \<open>plan\<close>\<close>

text \<open>
  \<open>while pending\<close> with \<open>day_offset\<close> starting at 2. The loop is total: a day whose
  buckets are free of ledger entries places at least one case, and the finite ledger
  reaches only finitely many days.
\<close>

function roll ::
  "(ResourceType \<times> int \<rightharpoonup> int) \<Rightarrow> int \<Rightarrow> int \<Rightarrow> int \<Rightarrow> 'c fill_state \<Rightarrow> py_error + 'c fill_state" where
  "roll c base8 n_replan day_offset st =
     (if fst st = [] then Inr st
      else case roll_day c base8 n_replan day_offset st of
             Inl e \<Rightarrow> Inl e
           | Inr st' \<Rightarrow> roll c base8 n_replan (day_offset + 1) st')"
  by pat_completeness auto
termination
proof (relation "measures [\<lambda>(c, b, n, off, st). length (fst st),
                           \<lambda>(c, b, n, off, st). ledger_reach (fst (snd st)) (b div 24 + off)]")
  show "wf (measures [\<lambda>(c, b, n, off, st). length (fst st),
                           \<lambda>(c, b, n, off, st). ledger_reach (fst (snd st)) (b div 24 + off)])"
    by simp
next
  fix c :: "ResourceType \<times> int \<rightharpoonup> int" and base8 n_replan day_offset :: int
    and st st' :: "'c fill_state"
  assume ne: "fst st \<noteq> []" and rd: "roll_day c base8 n_replan day_offset st = Inr st'"
  have le: "length (fst st') \<le> length (fst st)" using roll_day_length[OF rd] .
  show "((c, base8, n_replan, day_offset + 1, st'), (c, base8, n_replan, day_offset, st))
          \<in> measures [\<lambda>(c, b, n, off, st). length (fst st),
                       \<lambda>(c, b, n, off, st). ledger_reach (fst (snd st)) (b div 24 + off)]"
  proof (cases "ledger_reach (fst (snd st)) (base8 div 24 + day_offset) = 0")
    case True
    have "length (fst st') < length (fst st)"
      using roll_day_progress[OF rd ne ledger_reach_zero[OF True]] .
    then show ?thesis by simp
  next
    case False
    have "ledger_reach (fst (snd st')) (base8 div 24 + day_offset + 1)
            < ledger_reach (fst (snd st)) (base8 div 24 + day_offset)"
      using ledger_reach_step[OF roll_day_days[OF rd] False] .
    then show ?thesis using le by (auto simp: add.assoc)
  qed
qed

declare roll.simps [simp del]

text \<open>
  \<open>ORPlanner.plan\<close>. The result is the decision list together with the planner whose
  ledger has been updated; a \<open>KeyError\<close> from the capacity table propagates.
\<close>

definition ORPlanner_plan ::
  "ORPlanner \<Rightarrow> 'c list \<Rightarrow> 'c list \<Rightarrow> real \<Rightarrow> py_error + (('c \<times> int) list \<times> ORPlanner)" where
  "ORPlanner_plan self cases_to_plan cases_to_replan simulation_time =
     (let earliest = simulation_time + 24;
          base8 = next_8am_at_or_after earliest;
          pending = cases_to_plan
      in if pending = [] then Inr ([], self)
         else (let backlog = int (length pending) + int (length cases_to_replan)
               in case horizon_day (cap self) (used self) base8 backlog 0 of
                    Inl e \<Rightarrow> Inl e
                  | Inr slots0 \<Rightarrow>
                     (case horizon_day (cap self) (used self) base8 backlog 1 of
                        Inl e \<Rightarrow> Inl e
                      | Inr slots1 \<Rightarrow>
                         (case roll (cap self) base8 (int (length cases_to_replan)) 2
                                 (fold fill_slot slots1
                                    (fold fill_slot slots0 (pending, used self, []))) of
                            Inl e \<Rightarrow> Inl e
                          | Inr (pending', u', out) \<Rightarrow> Inr (out, self\<lparr>used := u'\<rparr>)))))"

section \<open>GASA.py: the fixed-schedule replay adapters\<close>

text \<open>
  \<open>FixedPlanner\<close> (inside \<open>evaluate\<close>) and \<open>OfflinePlanner\<close> carry an admission schedule
  \<open>adm_schedule: case id -> time\<close> and have the same \<open>plan\<close>:
  \<open>[(cid, self.adm_schedule.get(cid, now + 24)) for cid in to_plan]\<close>.
\<close>

definition FixedPlanner_plan :: "('c \<rightharpoonup> real) \<Rightarrow> 'c list \<Rightarrow> 'c list \<Rightarrow> real \<Rightarrow> ('c \<times> real) list" where
  "FixedPlanner_plan adm_schedule to_plan to_replan now =
     map (\<lambda>cid. (cid, case adm_schedule cid of None \<Rightarrow> now + 24 | Some t \<Rightarrow> t)) to_plan"

definition OfflinePlanner_plan :: "('c \<rightharpoonup> real) \<Rightarrow> 'c list \<Rightarrow> 'c list \<Rightarrow> real \<Rightarrow> ('c \<times> real) list" where
  "OfflinePlanner_plan adm_schedule to_plan to_replan now =
     map (\<lambda>cid. (cid, case adm_schedule cid of None \<Rightarrow> now + 24 | Some t \<Rightarrow> t)) to_plan"

section \<open>rl.py: the contextual-bandit planner\<close>

subsection \<open>Time helpers\<close>

text \<open>
  A \<open>datetime\<close> is kept as the number of microseconds since \<open>START_DT\<close>
  (2018-01-01 00:00, a Monday). Python's \<open>datetime\<close> covers the years 1 to 9999;
  arithmetic that leaves this range raises \<open>OverflowError\<close>. \<open>timedelta(hours=h)\<close>
  rounds a float to the nearest microsecond, halves to even.
\<close>

type_synonym datetime = int

definition us_per_hour :: int where
  "us_per_hour = 3600000000"

definition us_per_day :: int where
  "us_per_day = 86400000000"

definition datetime_min :: datetime where
  "datetime_min = - 736694 * us_per_day"

definition datetime_max :: datetime where
  "datetime_max = 2915365 * us_per_day - 1"

definition round_half_even :: "real \<Rightarrow> int" where
  "round_half_even x =
     (let f = \<lfloor>x\<rfloor>; r = x - of_int f
      in if r < 1 / 2 then f
         else if 1 / 2 < r then f + 1
         else if even f then f else f + 1)"

definition hours_to_dt :: "real \<Rightarrow> py_error + datetime" where
  "hours_to_dt h =
     (let us = round_half_even (h * of_int us_per_hour)
      in if datetime_min \<le> us \<and> us \<le> datetime_max then Inr us else Inl OverflowError)"

definition dt_hour :: "datetime \<Rightarrow> int" where
  "dt_hour dt = (dt div us_per_hour) mod 24"

definition dt_weekday :: "datetime \<Rightarrow> int" where
  "dt_weekday dt = (dt div us_per_day) mod 7"

definition is_weekend :: "real \<Rightarrow> py_error + bool" where
  "is_weekend h =
     (case hours_to_dt h of Inl e \<Rightarrow> Inl e | Inr dt \<Rightarrow> Inr (dt_weekday dt \<ge> 5))"

definition next_day_0800 :: "real \<Rightarrow> int \<Rightarrow> py_error + real" where
  "next_day_0800 h days_ahead =
     (case hours_to_dt h of
        Inl e \<Rightarrow> Inl e
      | Inr dt0 \<Rightarrow>
         (let dt = dt0 - dt0 mod us_per_hour;
              shifted = dt + days_ahead * us_per_day
          in if datetime_min \<le> shifted \<and> shifted \<le> datetime_max
             then (let target = shifted - shifted mod us_per_day + 8 * us_per_hour
                   in Inr (max (h + 1) (of_int (target div us_per_hour))))
             else Inl OverflowError))"

subsection \<open>The planner object\<close>

text \<open>
  \<open>Q\<close> and \<open>N\<close> are \<open>defaultdict\<close>s: every state has a row, by default
  \<open>{2: 0, 3: 0, 4: 0, 5: 0}\<close>; a row is a dict, kept as an association list in insertion
  order. \<open>metrics\<close> is the dict of the five accumulators.
\<close>

type_synonym rl_state = "int \<times> int \<times> int"

record metrics =
  admit_wait :: real
  in_hosp_wait :: real
  nerv :: real
  cost :: real
  overtime :: real

record RLSubmissionPlanner =
  epsilon :: real
  Q :: "rl_state \<Rightarrow> (int \<times> real) list"
  N :: "rl_state \<Rightarrow> (int \<times> int) list"
  last_state :: "rl_state option"
  last_action :: "int option"
  metrics :: metrics
  ready_or :: int
  last_level :: "ResourceType \<rightharpoonup> int"
  max_resources :: "ResourceType \<rightharpoonup> int"
  scheduled :: "ResourceType \<times> real \<rightharpoonup> int"

definition RLSubmissionPlanner_init :: "real \<Rightarrow> RLSubmissionPlanner" where
  "RLSubmissionPlanner_init eps =
     \<lparr> epsilon = eps,
       Q = (\<lambda>s. [(2, 0), (3, 0), (4, 0), (5, 0)]),
       N = (\<lambda>s. [(2, 0), (3, 0), (4, 0), (5, 0)]),
       last_state = None,
       last_action = None,
       metrics = \<lparr> admit_wait = 0, in_hosp_wait = 0, nerv = 0, cost = 0, overtime = 0 \<rparr>,
       ready_or = 0,
       last_level = [OR \<mapsto> 5],
       max_resources = [OR \<mapsto> 5],
       scheduled = Map.empty \<rparr>"

subsection \<open>\<open>plan\<close>\<close>

text \<open>The \<open>for cid in cases_to_plan\<close> loop with its two counters and the \<open>break\<close>.\<close>

fun plan_loop :: "'c list \<Rightarrow> int \<Rightarrow> int \<Rightarrow> real \<Rightarrow> real \<Rightarrow> ('c \<times> real) list" where
  "plan_loop [] cap1 cap2 slot1 slot2 = []"
| "plan_loop (cid # cs) cap1 cap2 slot1 slot2 =
     (if cap1 > 0 then (cid, slot1) # plan_loop cs (cap1 - 1) cap2 slot1 slot2
      else if cap2 > 0 then (cid, slot2) # plan_loop cs cap1 (cap2 - 1) slot1 slot2
      else [])"

definition RLSubmissionPlanner_plan ::
  "'c list \<Rightarrow> 'c list \<Rightarrow> real \<Rightarrow> py_error + ('c \<times> real) list" where
  "RLSubmissionPlanner_plan cases_to_plan cases_to_replan simulation_time =
     (case next_day_0800 simulation_time 1 of
        Inl e \<Rightarrow> Inl e
      | Inr slot1 \<Rightarrow>
         (case (if slot1 < simulation_time + 24 then next_day_0800 simulation_time 2
                else Inr slot1) of
            Inl e \<Rightarrow> Inl e
          | Inr slot1 \<Rightarrow>
             (case next_day_0800 simulation_time 2 of
                Inl e \<Rightarrow> Inl e
              | Inr slot2 \<Rightarrow>
                 (case is_weekend simulation_time of
                    Inl e \<Rightarrow> Inl e
                  | Inr weekend \<Rightarrow>
                     (let cap1 = (if \<not> weekend then 6 else 2);
                          cap2 = max 1 (cap1 div 2)
                      in Inr (plan_loop cases_to_plan cap1 cap2 slot1 slot2))))))"

subsection \<open>\<open>schedule\<close>\<close>

text \<open>
  The update of the last (state, action) pair: \<open>N[s][a] += 1\<close>, then
  \<open>Q[s][a] = q_old + (r - q_old) / n\<close> with the incremented count \<open>n\<close>.
\<close>

definition q_update_at ::
  "rl_state \<Rightarrow> int \<Rightarrow> real \<Rightarrow> RLSubmissionPlanner \<Rightarrow> py_error + RLSubmissionPlanner" where
  "q_update_at ls a_prev r self =
     (case map_of (N self ls) a_prev of
        None \<Rightarrow> Inl KeyError
      | Some n0 \<Rightarrow>
         (let n = n0 + 1
          in case map_of (Q self ls) a_prev of
               None \<Rightarrow> Inl KeyError
             | Some q_old \<Rightarrow>
                 if n = 0 then Inl ZeroDivisionError
                 else Inr (self\<lparr> N := (N self)(ls := AList.update a_prev n (N self ls)),
                                 Q := (Q self)(ls := AList.update a_prev
                                        (q_old + (r - q_old) / of_int n) (Q self ls)) \<rparr>)))"

definition reward :: "metrics \<Rightarrow> real" where
  "reward m = - (admit_wait m + in_hosp_wait m + nerv m + 3 * cost m)"

definition q_update :: "RLSubmissionPlanner \<Rightarrow> py_error + RLSubmissionPlanner" where
  "q_update self =
     (case last_state self of
        None \<Rightarrow> Inr self
      | Some ls \<Rightarrow>
         (case last_action self of
            None \<Rightarrow> Inr self
          | Some a_prev \<Rightarrow> q_update_at ls a_prev (reward (metrics self)) self))"

text \<open>
  \<open>max(q, key=q.get)\<close>: the first key, in the row's order, whose value is maximal;
  \<open>ValueError\<close> on an empty row.
\<close>

definition py_max_key :: "(int \<times> real) list \<Rightarrow> py_error + int" where
  "py_max_key q =
     (case q of
        [] \<Rightarrow> Inl ValueError
      | e # es \<Rightarrow> Inr (fst (fold (\<lambda>y best. if snd best < snd y then y else best) es e)))"

text \<open>
  The emission part of \<open>schedule\<close> (from \<open>chosen = ...\<close> to the week-ahead anchor),
  for the action \<open>a\<close> and the near-term slot \<open>start_t\<close>. The default argument
  \<open>self.last_level[ResourceType.OR]\<close> of \<open>.get\<close> is evaluated before the lookup.
\<close>

definition emit_schedule ::
  "RLSubmissionPlanner \<Rightarrow> real \<Rightarrow> int
     \<Rightarrow> py_error + ((ResourceType \<times> real \<times> int) list \<times> RLSubmissionPlanner)" where
  "emit_schedule self start_t a =
     (case max_resources self OR of
        None \<Rightarrow> Inl KeyError
      | Some mx \<Rightarrow>
         (case last_level self OR of
            None \<Rightarrow> Inl KeyError
          | Some ll \<Rightarrow>
             (let chosen = min mx (max 2 a);
                  existing = (case scheduled self (OR, start_t) of None \<Rightarrow> ll | Some v \<Rightarrow> v);
                  near = max (max existing ll) chosen;
                  self3 = self\<lparr> last_level := (last_level self)(OR \<mapsto> near) \<rparr>;
                  emit1 = (scheduled self3 (OR, start_t) \<noteq> Some near);
                  self4 = (if emit1
                           then self3\<lparr> scheduled := (scheduled self3)((OR, start_t) \<mapsto> near) \<rparr>
                           else self3);
                  week_ahead_t = start_t + 168;
                  emit2 = (scheduled self4 (OR, week_ahead_t) \<noteq> Some chosen);
                  self5 = (if emit2
                           then self4\<lparr> scheduled := (scheduled self4)((OR, week_ahead_t) \<mapsto> chosen) \<rparr>
                           else self4)
              in Inr ((if emit1 then [(OR, start_t, near)] else [])
                      @ (if emit2 then [(OR, week_ahead_t, chosen)] else []),
                      self5))))"

text \<open>
  \<open>schedule\<close>. The two draws from the global random source are parameters:
  \<open>rnd\<close> is the value of \<open>random.random()\<close>, \<open>choice\<close> the value of
  \<open>random.choice([2,3,4,5])\<close>, read only when \<open>rnd < epsilon\<close>.
\<close>

definition RLSubmissionPlanner_schedule ::
  "RLSubmissionPlanner \<Rightarrow> real \<Rightarrow> real \<Rightarrow> int
     \<Rightarrow> py_error + ((ResourceType \<times> real \<times> int) list \<times> RLSubmissionPlanner)" where
  "RLSubmissionPlanner_schedule self simulation_time rnd choice =
     (case hours_to_dt simulation_time of
        Inl e \<Rightarrow> Inl e
      | Inr dt \<Rightarrow>
         if dt_hour dt \<noteq> 18 then Inr ([], self)
         else
          (let weekday = dt_weekday dt;
               backlog_bin = min 3 (ready_or self div 5);
               overtime_flag = (if overtime (metrics self) \<noteq> 0 then 1 else 0);
               s = (weekday, backlog_bin, overtime_flag)
           in case q_update self of
                Inl e \<Rightarrow> Inl e
              | Inr self1 \<Rightarrow>
                 (case (if rnd < epsilon self1 then Inr choice else py_max_key (Q self1 s)) of
                    Inl e \<Rightarrow> Inl e
                  | Inr a \<Rightarrow>
                     (let self2 = self1\<lparr> metrics := \<lparr> admit_wait = 0, in_hosp_wait = 0,
                                    nerv = 0, cost = 0, overtime = 0 \<rparr> \<rparr>
                      in case next_day_0800 simulation_time 1 of
                           Inl e \<Rightarrow> Inl e
                         | Inr nd \<Rightarrow>
                            (let start_t = max (simulation_time + 14) nd
                             in case emit_schedule self2 start_t a of
                                  Inl e \<Rightarrow> Inl e
                                | Inr (schedule, self5) \<Rightarrow>
                                    Inr (schedule,
                                         self5\<lparr> last_state := Some s, last_action := Some a \<rparr>))))))"

section \<open>Lemmas: the decision list of the admission-wave planner\<close>

text \<open>
  How a placement step relates two fill states: the decision list is extended at the end
  by decisions whose timestamps satisfy \<open>P\<close>, and the cases of the new decisions are
  exactly those taken from the end of the queue.
\<close>

definition out_ext :: "(int \<Rightarrow> bool) \<Rightarrow> 'c fill_state \<Rightarrow> 'c fill_state \<Rightarrow> bool" where
  "out_ext P st st' =
     (\<exists>ext. snd (snd st') = snd (snd st) @ ext \<and> list_all (\<lambda>e. P (snd e)) ext
          \<and> fst st' @ rev (map fst ext) = fst st)"

lemma out_ext_refl: "out_ext P st st"
  by (simp add: out_ext_def)

lemma out_ext_trans:
  assumes "out_ext P a b" and "out_ext P b c"
  shows "out_ext P a c"
proof -
  obtain e1 where e1: "snd (snd b) = snd (snd a) @ e1" "list_all (\<lambda>e. P (snd e)) e1"
      "fst b @ rev (map fst e1) = fst a"
    using assms(1) unfolding out_ext_def by blast
  obtain e2 where e2: "snd (snd c) = snd (snd b) @ e2" "list_all (\<lambda>e. P (snd e)) e2"
      "fst c @ rev (map fst e2) = fst b"
    using assms(2) unfolding out_ext_def by blast
  have "snd (snd c) = snd (snd a) @ (e1 @ e2)" using e1(1) e2(1) by simp
  moreover have "list_all (\<lambda>e. P (snd e)) (e1 @ e2)" using e1(2) e2(2) by simp
  moreover have "fst c @ rev (map fst (e1 @ e2)) = fst a"
    by (simp add: e1(3)[symmetric] e2(3)[symmetric])
  ultimately show ?thesis unfolding out_ext_def by blast
qed

lemma out_ext_mono: "out_ext P a b \<Longrightarrow> (\<And>t. P t \<Longrightarrow> P' t) \<Longrightarrow> out_ext P' a b"
  unfolding out_ext_def by (auto simp: list_all_iff)

lemma place_out_ext:
  assumes "P t"
  shows "out_ext P st (place t key n st)"
proof -
  obtain pending u out where st: "st = (pending, u, out)" by (cases st)
  let ?ext = "map (\<lambda>c. (c, t)) (rev (drop (length pending - n) pending))"
  have "list_all (\<lambda>e. P (snd e)) ?ext" using assms by (simp add: list_all_iff)
  moreover have "take (length pending - n) pending @ rev (map fst ?ext) = pending"
    by (simp add: comp_def rev_map[symmetric])
  ultimately show ?thesis unfolding out_ext_def st place_def by auto
qed

lemma fill_slot_out_ext: "P (fst sl) \<Longrightarrow> out_ext P st (fill_slot sl st)"
  by (cases sl, cases st) (simp add: fill_slot_place place_out_ext out_ext_refl)

lemma roll_wave_out_ext:
  "P (ds + waves ! i) \<Longrightarrow> out_ext P st (roll_wave subqs ds w d i st)"
  by (cases st) (simp add: roll_wave_place place_out_ext out_ext_refl)

lemma fold_fill_slot_out_ext:
  "\<forall>sl\<in>set slots. P (fst sl) \<Longrightarrow> out_ext P st (fold fill_slot slots st)"
proof (induction slots arbitrary: st)
  case Nil then show ?case by (simp add: out_ext_refl)
next
  case (Cons sl slots)
  have "out_ext P st (fill_slot sl st)" using Cons.prems by (simp add: fill_slot_out_ext)
  moreover have "out_ext P (fill_slot sl st) (fold fill_slot slots (fill_slot sl st))"
    using Cons.IH Cons.prems by simp
  ultimately show ?case using out_ext_trans by (simp, blast)
qed

lemma fold_roll_wave_out_ext:
  "\<forall>i\<in>set is. P (ds + waves ! i) \<Longrightarrow> out_ext P st (fold (roll_wave subqs ds w d) is st)"
proof (induction "is" arbitrary: st)
  case Nil then show ?case by (simp add: out_ext_refl)
next
  case (Cons i "is")
  have "out_ext P st (roll_wave subqs ds w d i st)" using Cons.prems by (simp add: roll_wave_out_ext)
  moreover have "out_ext P (roll_wave subqs ds w d i st)
                   (fold (roll_wave subqs ds w d) is (roll_wave subqs ds w d i st))"
    using Cons.IH Cons.prems by simp
  ultimately show ?case using out_ext_trans by (simp, blast)
qed

lemma waves_nonneg: "i < length waves \<Longrightarrow> 0 \<le> waves ! i"
  by (auto simp: waves_def nth_Cons split: nat.splits)

lemma horizon_day_times:
  assumes "horizon_day c u base8 backlog off = Inr slots" and "0 \<le> off"
  shows "\<forall>sl\<in>set slots. base8 + 24 * off \<le> fst sl"
  using assms waves_nonneg
  by (auto simp: horizon_day_def Let_def split: sum.splits)

lemma roll_day_out_ext:
  assumes "roll_day c base8 n off st = Inr st'"
  shows "out_ext (\<lambda>t. base8 + 24 * off \<le> t) st st'"
proof -
  have "out_ext (\<lambda>t. base8 + 24 * off \<le> t) st
          (fold (roll_wave subqs (base8 + 24 * off) w d) [0..<length waves] st)" for subqs w d
    by (rule fold_roll_wave_out_ext) (simp add: waves_nonneg)
  then show ?thesis using assms by (auto simp: roll_day_def Let_def split: sum.splits)
qed

lemma roll_out_ext:
  "roll c base8 n off st = Inr st' \<Longrightarrow> 0 \<le> off \<Longrightarrow>
   out_ext (\<lambda>t. base8 + 24 * off \<le> t) st st' \<and> fst st' = []"
proof (induction c base8 n off st arbitrary: st' rule: roll.induct)
  case (1 c base8 n off st)
  show ?case
  proof (cases "fst st = []")
    case True
    then show ?thesis using "1.prems"(1) by (subst (asm) roll.simps) (auto simp: out_ext_refl)
  next
    case False
    then obtain st1 where rd: "roll_day c base8 n off st = Inr st1"
      and r: "roll c base8 n (off + 1) st1 = Inr st'"
      using "1.prems"(1) by (subst (asm) roll.simps) (simp split: sum.splits)
    have a: "out_ext (\<lambda>t. base8 + 24 * off \<le> t) st st1" using roll_day_out_ext[OF rd] .
    have b: "out_ext (\<lambda>t. base8 + 24 * (off + 1) \<le> t) st1 st' \<and> fst st' = []"
      using "1.IH"[OF False rd r] "1.prems"(2) by simp
    have "out_ext (\<lambda>t. base8 + 24 * off \<le> t) st1 st'"
      using b by (elim conjE out_ext_mono) simp
    then show ?thesis using a b out_ext_trans by blast
  qed
qed

lemma plan_Inr_cases:
  assumes "ORPlanner_plan self cs rs now = Inr (out, self')"
  obtains (empty) "cs = []" "out = []" "self' = self"
  | (placed) slots0 slots1 u' where "cs \<noteq> []"
      "horizon_day (cap self) (used self) (next_8am_at_or_after (now + 24))
         (int (length cs) + int (length rs)) 0 = Inr slots0"
      "horizon_day (cap self) (used self) (next_8am_at_or_after (now + 24))
         (int (length cs) + int (length rs)) 1 = Inr slots1"
      "roll (cap self) (next_8am_at_or_after (now + 24)) (int (length rs)) 2
         (fold fill_slot slots1 (fold fill_slot slots0 (cs, used self, []))) = Inr ([], u', out)"
      "self' = self\<lparr>used := u'\<rparr>"
proof (cases "cs = []")
  case True
  then show ?thesis using assms empty by (simp add: ORPlanner_plan_def)
next
  case False
  let ?b = "next_8am_at_or_after (now + 24)"
  let ?bl = "int (length cs) + int (length rs)"
  obtain slots0 where s0: "horizon_day (cap self) (used self) ?b ?bl 0 = Inr slots0"
    using assms False
    by (cases "horizon_day (cap self) (used self) ?b ?bl 0") (simp_all add: ORPlanner_plan_def Let_def)
  obtain slots1 where s1: "horizon_day (cap self) (used self) ?b ?bl 1 = Inr slots1"
    using assms False s0
    by (cases "horizon_day (cap self) (used self) ?b ?bl 1") (simp_all add: ORPlanner_plan_def Let_def)
  let ?st = "fold fill_slot slots1 (fold fill_slot slots0 (cs, used self, []))"
  obtain p' u' out' where r: "roll (cap self) ?b (int (length rs)) 2 ?st = Inr (p', u', out')"
    using assms False s0 s1
    by (cases "roll (cap self) ?b (int (length rs)) 2 ?st")
       (auto simp: ORPlanner_plan_def Let_def)
  have o: "out = out'" "self' = self\<lparr>used := u'\<rparr>"
    using assms False s0 s1 r by (simp_all add: ORPlanner_plan_def Let_def)
  have "p' = []" using roll_out_ext[OF r] by simp
  then show ?thesis using placed[OF False s0 s1] r o by simp
qed

lemma plan_result:
  assumes "ORPlanner_plan self cs rs now = Inr (out, self')"
  shows "map fst out = rev cs"
    and "list_all (\<lambda>e. next_8am_at_or_after (now + 24) \<le> snd e) out"
  using assms
proof (atomize (full), cases rule: plan_Inr_cases)
  case empty
  then show "map fst out = rev cs \<and> list_all (\<lambda>e. next_8am_at_or_after (now + 24) \<le> snd e) out"
    by simp
next
  case (placed slots0 slots1 u')
  let ?b = "next_8am_at_or_after (now + 24)"
  let ?P = "\<lambda>t. ?b \<le> t"
  let ?st0 = "(cs, used self, []) :: 'a fill_state"
  let ?st1 = "fold fill_slot slots0 ?st0"
  let ?st2 = "fold fill_slot slots1 ?st1"
  have t0: "\<forall>sl\<in>set slots0. ?P (fst sl)" using horizon_day_times[OF placed(2)] by simp
  have t1: "\<forall>sl\<in>set slots1. ?P (fst sl)" using horizon_day_times[OF placed(3)] by auto
  have e1: "out_ext ?P ?st0 ?st1" using fold_fill_slot_out_ext[OF t0] .
  have e2: "out_ext ?P ?st1 ?st2" using fold_fill_slot_out_ext[OF t1] .
  have "out_ext (\<lambda>t. ?b + 24 * 2 \<le> t) ?st2 ([], u', out)"
    using roll_out_ext[OF placed(4)] by simp
  then have e3: "out_ext ?P ?st2 ([], u', out)" by (rule out_ext_mono) simp
  have "out_ext ?P ?st0 ([], u', out)"
    using out_ext_trans[OF out_ext_trans[OF e1 e2] e3] .
  then show "map fst out = rev cs \<and> list_all (\<lambda>e. ?b \<le> snd e) out"
    unfolding out_ext_def by (auto simp: rev_map)
qed

text \<open>The capacity table has the four entries that \<open>_daily_quota\<close> reads, for every weekday.\<close>

definition cap_complete :: "(ResourceType \<times> int \<rightharpoonup> int) \<Rightarrow> bool" where
  "cap_complete c =
     (\<forall>d. 1 \<le> d \<and> d \<le> 7 \<longrightarrow>
          c (INTAKE, d) \<noteq> None \<and> c (ER_PRACTITIONER, d) \<noteq> None
        \<and> c (A_BED, d) \<noteq> None \<and> c (B_BED, d) \<noteq> None)"

lemma dow_range: "1 \<le> dow_1_to_7 t \<and> dow_1_to_7 t \<le> 7"
  by (simp add: dow_1_to_7_def)

lemma daily_quota_ok: "cap_complete c \<Longrightarrow> \<exists>q. daily_quota c (dow_1_to_7 t) = Inr q"
  using dow_range[of t] unfolding cap_complete_def daily_quota_def Let_def
  by (auto split: option.splits)

lemma roll_day_ok:
  assumes "cap_complete c"
  shows "\<exists>st'. roll_day c b n off st = Inr st'"
proof -
  obtain q where "daily_quota c (dow_1_to_7 (b + 24 * off)) = Inr q"
    using daily_quota_ok[OF assms] by blast
  then show ?thesis unfolding roll_day_def Let_def by (simp del: split_paired_Ex)
qed

lemma horizon_day_ok:
  assumes "cap_complete c"
  shows "\<exists>slots. horizon_day c u b bl off = Inr slots"
proof -
  obtain q where "daily_quota c (dow_1_to_7 (b + 24 * off)) = Inr q"
    using daily_quota_ok[OF assms] by blast
  then show ?thesis unfolding horizon_day_def Let_def by (simp del: split_paired_Ex)
qed

lemma roll_ok: "cap_complete c \<Longrightarrow> \<exists>st'. roll c b n off st = Inr st'"
proof (induction c b n off st rule: roll.induct)
  case (1 c b n off st)
  show ?case
  proof (cases "fst st = []")
    case True
    then show ?thesis by (subst roll.simps) (simp del: split_paired_Ex)
  next
    case False
    obtain st1 where rd: "roll_day c b n off st = Inr st1" using roll_day_ok[OF "1.prems"] by blast
    obtain st' where "roll c b n (off + 1) st1 = Inr st'"
      using "1.IH"[OF False rd "1.prems"] by blast
    then show ?thesis using False rd by (subst roll.simps) (simp del: split_paired_Ex)
  qed
qed

lemma plan_ok:
  assumes "cap_complete (cap self)"
  shows "\<exists>out self'. ORPlanner_plan self cs rs now = Inr (out, self')"
proof -
  let ?b = "next_8am_at_or_after (now + 24)"
  let ?bl = "int (length cs) + int (length rs)"
  obtain slots0 where s0: "horizon_day (cap self) (used self) ?b ?bl 0 = Inr slots0"
    using horizon_day_ok[OF assms] by blast
  obtain slots1 where s1: "horizon_day (cap self) (used self) ?b ?bl 1 = Inr slots1"
    using horizon_day_ok[OF assms] by blast
  obtain st' where r: "roll (cap self) ?b (int (length rs)) 2
         (fold fill_slot slots1 (fold fill_slot slots0 (cs, used self, []))) = Inr st'"
    using roll_ok[OF assms] by blast
  show ?thesis
    by (cases st') (use s0 s1 r in \<open>auto simp: ORPlanner_plan_def Let_def\<close>)
qed

section \<open>Lemmas: lead time of the bandit planner\<close>

lemma round_half_even_bounds:
  "x - 1 / 2 \<le> of_int (round_half_even x)" "of_int (round_half_even x) \<le> x + 1 / 2"
  unfolding round_half_even_def Let_def by (auto split: if_splits) linarith+

lemma us_per_day_24: "us_per_day = 24 * us_per_hour"
  by (simp add: us_per_day_def us_per_hour_def)

lemma us_per_hour_pos: "0 < us_per_hour"
  by (simp add: us_per_hour_def)

lemma target_gen:
  fixes U x k :: int
  assumes U: "0 < U"
  shows "((x - x mod U + k * (24 * U)) - (x - x mod U + k * (24 * U)) mod (24 * U) + 8 * U) div U
         = 24 * (x div (24 * U)) + 24 * k + 8"
proof -
  define X where "X = x div U"
  have a: "x - x mod U = U * X" by (simp add: X_def minus_mod_eq_mult_div)
  have s: "U * X + k * (24 * U) = U * (X + 24 * k)" by (simp add: algebra_simps)
  have m: "(U * (X + 24 * k)) mod (24 * U) = U * (X mod 24)"
  proof -
    have "(U * (X + 24 * k)) mod (U * 24) = U * ((X + 24 * k) mod 24)"
      by (rule mult_mod_right[symmetric])
    then show ?thesis by (simp add: mult.commute)
  qed
  have X24: "X - X mod 24 = 24 * (X div 24)" by (simp add: minus_mod_eq_mult_div)
  have "U * (X + 24 * k) - U * (X mod 24) + 8 * U = U * ((X - X mod 24) + 24 * k + 8)"
    by (simp add: algebra_simps)
  also have "\<dots> = U * (24 * (X div 24) + 24 * k + 8)" by (simp only: X24)
  finally have "(U * (X + 24 * k) - U * (X mod 24) + 8 * U) div U = 24 * (X div 24) + 24 * k + 8"
    using U by simp
  moreover have "X div 24 = x div (24 * U)"
    unfolding X_def using U by (simp add: mult.commute[of 24] zdiv_zmult2_eq)
  ultimately show ?thesis unfolding a s m by simp
qed

lemma target_hours:
  "((dt0 - dt0 mod us_per_hour + k * us_per_day)
      - (dt0 - dt0 mod us_per_hour + k * us_per_day) mod us_per_day + 8 * us_per_hour) div us_per_hour
   = 24 * (dt0 div us_per_day) + 24 * k + 8"
  unfolding us_per_day_24 by (rule target_gen[OF us_per_hour_pos])

lemma next_day_0800_value:
  assumes "next_day_0800 h k = Inr v"
  obtains dt0 where "hours_to_dt h = Inr dt0"
    and "v = max (h + 1) (of_int (24 * (dt0 div us_per_day) + 24 * k + 8))"
proof -
  obtain dt0 where d: "hours_to_dt h = Inr dt0"
    using assms unfolding next_day_0800_def by (auto split: sum.splits)
  have "v = max (h + 1) (of_int (((dt0 - dt0 mod us_per_hour + k * us_per_day)
      - (dt0 - dt0 mod us_per_hour + k * us_per_day) mod us_per_day + 8 * us_per_hour) div us_per_hour))"
    using assms d unfolding next_day_0800_def Let_def by (simp split: if_splits)
  then have "v = max (h + 1) (of_int (24 * (dt0 div us_per_day) + 24 * k + 8))"
    by (simp only: target_hours)
  then show ?thesis using that d by blast
qed

lemma hours_to_dt_day:
  assumes "hours_to_dt h = Inr dt0"
  shows "h < of_int (24 * (dt0 div us_per_day) + 24)"
proof -
  let ?U = us_per_hour and ?D = us_per_day
  have dt0: "dt0 = round_half_even (h * of_int ?U)"
    using assms by (auto simp: hours_to_dt_def Let_def split: if_splits)
  have "h * of_int ?U \<le> of_int dt0 + 1 / 2"
    using round_half_even_bounds(1)[of "h * of_int ?U"] dt0 by simp
  moreover have "dt0 < ?D * (dt0 div ?D) + ?D"
  proof -
    have "dt0 mod ?D < ?D" by (simp add: us_per_day_def)
    then show ?thesis using mult_div_mod_eq[of ?D dt0] by linarith
  qed
  then have "dt0 + 1 \<le> ?D * (dt0 div ?D) + ?D" by linarith
  then have "real_of_int dt0 + 1 \<le> of_int (?D * (dt0 div ?D) + ?D)"
    by (metis of_int_1 of_int_add of_int_le_iff)
  ultimately have "h * of_int ?U < of_int (?D * (dt0 div ?D) + ?D)" by linarith
  also have "?D * (dt0 div ?D) + ?D = (24 * (dt0 div ?D) + 24) * ?U"
    by (simp add: us_per_day_24 algebra_simps)
  finally have "h * of_int ?U < of_int (24 * (dt0 div ?D) + 24) * of_int ?U" by simp
  then show ?thesis using us_per_hour_pos by simp
qed

lemma next_day_0800_two:
  assumes "next_day_0800 h 2 = Inr v"
  shows "h + 24 \<le> v"
proof -
  obtain dt0 where d: "hours_to_dt h = Inr dt0"
    and v: "v = max (h + 1) (of_int (24 * (dt0 div us_per_day) + 24 * 2 + 8))"
    using assms by (rule next_day_0800_value)
  have "h < of_int (24 * (dt0 div us_per_day) + 24)" using hours_to_dt_day[OF d] .
  then have "h + 24 < of_int (24 * (dt0 div us_per_day) + 24 * 2 + 8)" by simp
  then show ?thesis using v by linarith
qed

lemma plan_loop_slots:
  "e \<in> set (plan_loop cs cap1 cap2 slot1 slot2) \<Longrightarrow> snd e = slot1 \<or> snd e = slot2"
  by (induction cs cap1 cap2 slot1 slot2 rule: plan_loop.induct) (auto split: if_splits)

lemma RL_plan_lead:
  assumes "RLSubmissionPlanner_plan cases_to_plan cases_to_replan now = Inr out"
    and "e \<in> set out"
  shows "now + 24 \<le> snd e"
proof -
  from assms(1) obtain s1 s1' s2 we where
    a: "next_day_0800 now 1 = Inr s1"
    and b: "(if s1 < now + 24 then next_day_0800 now 2 else Inr s1) = Inr s1'"
    and c: "next_day_0800 now 2 = Inr s2"
    and o: "out = plan_loop cases_to_plan (if \<not> we then 6 else 2)
                   (max 1 ((if \<not> we then 6 else 2) div 2)) s1' s2"
    unfolding RLSubmissionPlanner_plan_def Let_def by (auto split: sum.splits)
  have s2: "now + 24 \<le> s2" using next_day_0800_two[OF c] .
  have s1': "now + 24 \<le> s1'"
  proof (cases "s1 < now + 24")
    case True then show ?thesis using b c s2 by simp
  next
    case False then show ?thesis using b by simp
  qed
  show ?thesis using plan_loop_slots[of e] assms(2) s1' s2 unfolding o by blast
qed

section \<open>Lemmas: the staffing levels of the bandit planner\<close>

lemma q_update_at_frame:
  "q_update_at ls a r self = Inr self' \<Longrightarrow>
   scheduled self' = scheduled self \<and> last_level self' = last_level self
   \<and> max_resources self' = max_resources self"
  by (auto simp: q_update_at_def Let_def split: option.splits if_splits)

lemma q_update_frame:
  "q_update self = Inr self' \<Longrightarrow>
   scheduled self' = scheduled self \<and> last_level self' = last_level self
   \<and> max_resources self' = max_resources self"
  by (auto simp: q_update_def dest: q_update_at_frame split: option.splits)

text \<open>The levels and the two emission tests of \<open>emit_schedule\<close>, named.\<close>

definition near_level :: "RLSubmissionPlanner \<Rightarrow> real \<Rightarrow> int \<Rightarrow> int \<Rightarrow> int \<Rightarrow> int" where
  "near_level self start_t a mx ll =
     max (max (case scheduled self (OR, start_t) of None \<Rightarrow> ll | Some v \<Rightarrow> v) ll)
         (min mx (max 2 a))"

lemma emit_schedule_Inr:
  assumes "emit_schedule self start_t a = Inr (out, self')"
  obtains mx ll where "max_resources self OR = Some mx" "last_level self OR = Some ll"
    and "set out \<subseteq> {(OR, start_t, near_level self start_t a mx ll),
                      (OR, start_t + 168, min mx (max 2 a))}"
    and "last_level self' OR = Some (near_level self start_t a mx ll)"
    and "scheduled self' (OR, start_t) = Some (near_level self start_t a mx ll)"
    and "(OR, start_t + 168, min mx (max 2 a)) \<in> set out
           \<Longrightarrow> scheduled self' (OR, start_t + 168) = Some (min mx (max 2 a))"
    and "Q self' = Q self" and "N self' = N self"
proof -
  obtain mx where mx: "max_resources self OR = Some mx"
    using assms by (cases "max_resources self OR") (simp_all add: emit_schedule_def)
  obtain ll where ll: "last_level self OR = Some ll"
    using assms mx by (cases "last_level self OR") (simp_all add: emit_schedule_def)
  define near where "near = near_level self start_t a mx ll"
  define chosen where "chosen = min mx (max 2 a)"
  define self3 where "self3 = self\<lparr> last_level := (last_level self)(OR \<mapsto> near) \<rparr>"
  define emit1 where "emit1 = (scheduled self3 (OR, start_t) \<noteq> Some near)"
  define self4 where "self4 = (if emit1
      then self3\<lparr> scheduled := (scheduled self3)((OR, start_t) \<mapsto> near) \<rparr> else self3)"
  define emit2 where "emit2 = (scheduled self4 (OR, start_t + 168) \<noteq> Some chosen)"
  define self5 where "self5 = (if emit2
      then self4\<lparr> scheduled := (scheduled self4)((OR, start_t + 168) \<mapsto> chosen) \<rparr> else self4)"
  have e: "emit_schedule self start_t a
             = Inr ((if emit1 then [(OR, start_t, near)] else [])
                    @ (if emit2 then [(OR, start_t + 168, chosen)] else []), self5)"
    unfolding emit_schedule_def Let_def mx ll
      near_def near_level_def chosen_def self3_def emit1_def self4_def emit2_def self5_def
    by simp
  have out: "out = (if emit1 then [(OR, start_t, near)] else [])
                    @ (if emit2 then [(OR, start_t + 168, chosen)] else [])"
    and s5: "self' = self5"
    using assms e by simp_all
  have a1: "set out \<subseteq> {(OR, start_t, near), (OR, start_t + 168, chosen)}"
    unfolding out by auto
  have l3: "last_level self3 OR = Some near" by (simp add: self3_def)
  have l4: "last_level self4 OR = Some near" using l3 by (simp add: self4_def)
  have a2: "last_level self' OR = Some near" using l4 by (simp add: s5 self5_def)
  have s4: "scheduled self4 (OR, start_t) = Some near"
    by (cases emit1) (simp_all add: self4_def emit1_def)
  have a3: "scheduled self' (OR, start_t) = Some near"
    using s4 by (simp add: s5 self5_def)
  have a4: "scheduled self' (OR, start_t + 168) = Some chosen"
    by (cases emit2) (simp_all add: s5 self5_def emit2_def)
  have a5: "Q self' = Q self" "N self' = N self"
    by (simp_all add: s5 self5_def self4_def self3_def)
  show ?thesis
    using that[OF mx ll] a1 a2 a3 a4 a5 unfolding near_def chosen_def by blast
qed

lemma near_level_ge:
  "ll \<le> near_level self start_t a mx ll"
  "scheduled self (OR, start_t) = Some old \<Longrightarrow> old \<le> near_level self start_t a mx ll"
  by (simp_all add: near_level_def)

lemma emit_schedule_near:
  assumes "emit_schedule self start_t a = Inr (out, self')"
    and "(r, ts, lvl) \<in> set out" and "ts < start_t + 168"
  shows "r = OR \<and> ts = start_t
       \<and> (\<forall>old. scheduled self (OR, ts) = Some old \<longrightarrow> old \<le> lvl)
       \<and> (\<forall>ll. last_level self OR = Some ll \<longrightarrow> ll \<le> lvl)"
  using assms(1)
proof (rule emit_schedule_Inr)
  fix mx ll
  assume ll: "last_level self OR = Some ll"
    and sub: "set out \<subseteq> {(OR, start_t, near_level self start_t a mx ll),
                      (OR, start_t + 168, min mx (max 2 a))}"
  have "(r, ts, lvl) = (OR, start_t, near_level self start_t a mx ll)"
    using sub assms(2,3) by auto
  then show ?thesis using ll by (auto simp: near_level_ge)
qed

lemma emit_schedule_committed:
  assumes "emit_schedule self start_t a = Inr (out, self')"
    and "(r, ts, lvl) \<in> set out"
  shows "scheduled self' (r, ts) = Some lvl"
  using assms(1)
proof (rule emit_schedule_Inr)
  fix mx ll
  assume sub: "set out \<subseteq> {(OR, start_t, near_level self start_t a mx ll),
                      (OR, start_t + 168, min mx (max 2 a))}"
    and s1: "scheduled self' (OR, start_t) = Some (near_level self start_t a mx ll)"
    and s2: "(OR, start_t + 168, min mx (max 2 a)) \<in> set out
           \<Longrightarrow> scheduled self' (OR, start_t + 168) = Some (min mx (max 2 a))"
  consider "(r, ts, lvl) = (OR, start_t, near_level self start_t a mx ll)"
    | "(r, ts, lvl) = (OR, start_t + 168, min mx (max 2 a))"
    using sub assms(2) by auto
  then show ?thesis
  proof cases
    case 1 then show ?thesis using s1 by simp
  next
    case 2 then show ?thesis using s2 assms(2) by simp
  qed
qed

lemma schedule_cases:
  assumes "RLSubmissionPlanner_schedule self t rnd choice = Inr (out, self')"
  obtains (idle) "out = []" "self' = self"
  | (emit) self1 self5 a nd st where "q_update self = Inr self1"
      "next_day_0800 t 1 = Inr nd"
      "emit_schedule (self1\<lparr> metrics := \<lparr> admit_wait = 0, in_hosp_wait = 0,
                                    nerv = 0, cost = 0, overtime = 0 \<rparr> \<rparr>) (max (t + 14) nd) a
         = Inr (out, self5)"
      "self' = self5\<lparr> last_state := Some st, last_action := Some a \<rparr>"
  using assms unfolding RLSubmissionPlanner_schedule_def Let_def
  by (auto split: sum.splits if_splits)

lemma schedule_near_step:
  assumes "RLSubmissionPlanner_schedule self t rnd choice = Inr (out, self')"
    and "(r, ts, lvl) \<in> set out" and "ts < t + 168"
  shows "r = OR \<and> t + 14 \<le> ts
       \<and> (\<forall>old. scheduled self (OR, ts) = Some old \<longrightarrow> old \<le> lvl)
       \<and> (\<forall>ll. last_level self OR = Some ll \<longrightarrow> ll \<le> lvl)"
  using assms(1)
proof (cases rule: schedule_cases)
  case idle
  then show ?thesis using assms(2) by simp
next
  case (emit self1 self5 a nd st)
  let ?self2 = "self1\<lparr> metrics := \<lparr> admit_wait = 0, in_hosp_wait = 0,
                                    nerv = 0, cost = 0, overtime = 0 \<rparr> \<rparr>"
  have lt: "ts < max (t + 14) nd + 168" using assms(3) by simp
  have "r = OR \<and> ts = max (t + 14) nd
       \<and> (\<forall>old. scheduled ?self2 (OR, ts) = Some old \<longrightarrow> old \<le> lvl)
       \<and> (\<forall>ll. last_level ?self2 OR = Some ll \<longrightarrow> ll \<le> lvl)"
    by (rule emit_schedule_near[OF emit(3) assms(2) lt])
  then show ?thesis using q_update_frame[OF emit(1)] by simp
qed

lemma schedule_committed:
  assumes "RLSubmissionPlanner_schedule self t rnd choice = Inr (out, self')"
    and "(r, ts, lvl) \<in> set out"
  shows "scheduled self' (r, ts) = Some lvl"
  using assms(1)
proof (cases rule: schedule_cases)
  case idle
  then show ?thesis using assms(2) by simp
next
  case (emit self1 self5 a nd st)
  then show ?thesis using emit_schedule_committed[OF emit(3) assms(2)] by simp
qed

section \<open>Lemmas: the action-value update\<close>







section \<open>Lemmas: lead time of the admission-wave planner and the replay adapters\<close>

lemma py_fmod_range: "0 \<le> py_fmod t 24 \<and> py_fmod t 24 < 24"
proof -
  have "of_int \<lfloor>t / 24\<rfloor> \<le> t / 24" "t / 24 < of_int \<lfloor>t / 24\<rfloor> + 1" by linarith+
  then show ?thesis by (simp add: py_fmod_def field_simps)
qed

lemma py_fmod_shift: "py_fmod (t + 24) 24 = py_fmod t 24"
proof -
  have "\<lfloor>(t + 24) / 24\<rfloor> = \<lfloor>t / 24\<rfloor> + 1"
    by (simp add: add_divide_distrib)
  then show ?thesis by (simp add: py_fmod_def algebra_simps)
qed

lemma py_int_ge_floor: "\<lfloor>x\<rfloor> \<le> py_int x"
  by (simp add: py_int_def floor_le_ceiling)

lemma next_8am_ge:
  assumes "\<not> (8 < py_fmod t 24 \<and> py_fmod t 24 < 9)"
  shows "t \<le> of_int (next_8am_at_or_after t)"
proof -
  define m where "m = py_fmod t 24"
  define q where "q = \<lfloor>t / 24\<rfloor>"
  have t: "t = 24 * of_int q + m" by (simp add: m_def q_def py_fmod_def)
  have m: "0 \<le> m" "m < 24" using py_fmod_range[of t] by (simp_all add: m_def)
  have hod: "py_int m = \<lfloor>m\<rfloor>" using m(1) by (simp add: py_int_def)
  have fl: "\<lfloor>t - of_int \<lfloor>m\<rfloor>\<rfloor> = 24 * q"
  proof (rule floor_unique)
    have f: "0 \<le> m - of_int \<lfloor>m\<rfloor>" "m - of_int \<lfloor>m\<rfloor> < 1" by linarith+
    show "of_int (24 * q) \<le> t - of_int \<lfloor>m\<rfloor>" using t f(1) by simp
    show "t - of_int \<lfloor>m\<rfloor> < of_int (24 * q) + 1" using t f(2) by simp
  qed
  have "24 * q \<le> py_int (t - of_int \<lfloor>m\<rfloor>)"
    using py_int_ge_floor[of "t - of_int \<lfloor>m\<rfloor>"] fl by simp
  then have "real_of_int (24 * q) \<le> real_of_int (py_int (t - of_int \<lfloor>m\<rfloor>))"
    by (simp only: of_int_le_iff)
  then have base: "24 * real_of_int q \<le> real_of_int (py_int (t - of_int \<lfloor>m\<rfloor>))"
    by simp
  have n: "next_8am_at_or_after t
            = (if \<lfloor>m\<rfloor> \<le> 8 then py_int (t - of_int \<lfloor>m\<rfloor>) + 8 else py_int (t - of_int \<lfloor>m\<rfloor>) + 32)"
    by (simp add: next_8am_at_or_after_def Let_def m_def[symmetric] hod)
  show ?thesis
  proof (cases "\<lfloor>m\<rfloor> \<le> 8")
    case True
    then have "m < 9" by linarith
    then have "m \<le> 8" using assms by (simp add: m_def)
    moreover have "real_of_int (next_8am_at_or_after t)
                     = real_of_int (py_int (t - of_int \<lfloor>m\<rfloor>)) + 8"
      using True n by simp
    ultimately show ?thesis using base t by linarith
  next
    case False
    have "real_of_int (next_8am_at_or_after t)
            = real_of_int (py_int (t - of_int \<lfloor>m\<rfloor>)) + 32"
      using False n by simp
    then show ?thesis using base t m(2) by linarith
  qed
qed

lemma OR_plan_lead:
  assumes "\<not> (8 < py_fmod now 24 \<and> py_fmod now 24 < 9)"
    and "ORPlanner_plan self cs rs now = Inr (out, self')" and "e \<in> set out"
  shows "now + 24 \<le> of_int (snd e)"
proof -
  have "now + 24 \<le> of_int (next_8am_at_or_after (now + 24))"
    using assms(1) by (intro next_8am_ge) (simp add: py_fmod_shift)
  moreover have "next_8am_at_or_after (now + 24) \<le> snd e"
    using plan_result(2)[OF assms(2)] assms(3) by (simp add: list_all_iff)
  ultimately show ?thesis by linarith
qed


lemma init_cap_complete: "cap_complete (cap ORPlanner_init)"
  by (simp add: cap_complete_def ORPlanner_init_def WEEKLY_CAP_def)

lemma Fixed_plan_lead:
  assumes "\<forall>c\<in>set cs. \<forall>t. adm c = Some t \<longrightarrow> now + 24 \<le> t"
  shows "\<forall>e\<in>set (FixedPlanner_plan adm cs rs now). now + 24 \<le> snd e"
    and "\<forall>e\<in>set (OfflinePlanner_plan adm cs rs now). now + 24 \<le> snd e"
  using assms by (auto simp: FixedPlanner_plan_def OfflinePlanner_plan_def split: option.splits)

section \<open>Claims about the wave split\<close>



section \<open>Claims about the bandit planner\<close>

text \<open>The definitions that evaluate the time helpers on concrete inputs.\<close>

lemmas dt_defs = hours_to_dt_def round_half_even_def us_per_hour_def us_per_day_def
  datetime_min_def datetime_max_def dt_hour_def dt_weekday_def next_day_0800_def

text \<open>
  C10. When \<open>schedule\<close> of the bandit planner is called at a time whose hour of day
  (the \<open>hour\<close> field of \<open>hours_to_dt(simulation_time)\<close>) is not 18, it returns the empty
  list and the planner object is unchanged: Q-table, visit counts, metric accumulators,
  last state and action, last committed levels and the committed-schedule map.
\<close>

theorem schedule_off_hour_unchanged:
  assumes "hours_to_dt simulation_time = Inr dt" and "dt_hour dt \<noteq> 18"
  shows "RLSubmissionPlanner_schedule self simulation_time rnd choice = Inr ([], self)"
  using assms by (simp add: RLSubmissionPlanner_schedule_def)

theorem schedule_off_hour_unchanged_witness:
  "hours_to_dt 17 = Inr 61200000000 \<and> dt_hour 61200000000 = 17
   \<and> RLSubmissionPlanner_schedule (RLSubmissionPlanner_init (1 / 10)) 17 0 3
       = Inr ([], RLSubmissionPlanner_init (1 / 10))"
proof -
  have h: "hours_to_dt 17 = Inr 61200000000" by (simp add: dt_defs Let_def)
  have d: "dt_hour 61200000000 = 17" by (simp add: dt_defs)
  have n: "dt_hour 61200000000 \<noteq> 18" by (simp add: dt_defs)
  show ?thesis using schedule_off_hour_unchanged[OF h n] h d by simp
qed

text \<open>
  C2. For two consecutive \<open>schedule\<close> calls of the bandit planner, every entry the
  second call emits for a slot less than one week ahead is for the OR, lies at least 14
  hours ahead, and its level is not lower than the level already committed for that
  (resource, time) pair, than any level the first call emitted for that pair, or than
  the last committed level.
\<close>

theorem schedule_near_term_never_lower:
  assumes "RLSubmissionPlanner_schedule self0 t1 rnd1 choice1 = Inr (out1, self1)"
    and "RLSubmissionPlanner_schedule self1 t2 rnd2 choice2 = Inr (out2, self2)"
    and "(r, ts, lvl) \<in> set out2" and "ts < t2 + 168"
  shows "r = OR \<and> t2 + 14 \<le> ts
       \<and> (\<forall>old. scheduled self1 (OR, ts) = Some old \<longrightarrow> old \<le> lvl)
       \<and> (\<forall>prev. (OR, ts, prev) \<in> set out1 \<longrightarrow> prev \<le> lvl)
       \<and> (\<forall>ll. last_level self1 OR = Some ll \<longrightarrow> ll \<le> lvl)"
proof -
  have a: "r = OR \<and> t2 + 14 \<le> ts
       \<and> (\<forall>old. scheduled self1 (OR, ts) = Some old \<longrightarrow> old \<le> lvl)
       \<and> (\<forall>ll. last_level self1 OR = Some ll \<longrightarrow> ll \<le> lvl)"
    by (rule schedule_near_step[OF assms(2,3,4)])
  have "prev \<le> lvl" if "(OR, ts, prev) \<in> set out1" for prev
    using schedule_committed[OF assms(1) that] a by simp
  then show ?thesis using a by blast
qed

theorem schedule_near_term_never_lower_witness:
  "\<exists>out1 self1 out2 self2.
      RLSubmissionPlanner_schedule (RLSubmissionPlanner_init 0) 18 (1 / 2) 3 = Inr (out1, self1)
    \<and> RLSubmissionPlanner_schedule self1 186 (1 / 2) 3 = Inr (out2, self2)
    \<and> out1 = [(OR, 32, 5), (OR, 200, 2)]
    \<and> out2 = [(OR, 200, 5), (OR, 368, 2)]
    \<and> scheduled self1 (OR, 200) = Some 2
    \<and> (2::int) \<le> 5"
proof -
  define self1 where
    "self1 = snd (projr (RLSubmissionPlanner_schedule (RLSubmissionPlanner_init 0) 18 (1 / 2) 3))"
  define self2 where
    "self2 = snd (projr (RLSubmissionPlanner_schedule self1 186 (1 / 2) 3))"
  have c1: "RLSubmissionPlanner_schedule (RLSubmissionPlanner_init 0) 18 (1 / 2) 3
              = Inr ([(OR, 32, 5), (OR, 200, 2)], self1)"
    unfolding self1_def
    by (simp add: RLSubmissionPlanner_schedule_def RLSubmissionPlanner_init_def emit_schedule_def
        q_update_def py_max_key_def dt_defs Let_def)
  have c2: "RLSubmissionPlanner_schedule self1 186 (1 / 2) 3
              = Inr ([(OR, 200, 5), (OR, 368, 2)], self2)"
    unfolding self2_def self1_def
    by (simp add: RLSubmissionPlanner_schedule_def RLSubmissionPlanner_init_def emit_schedule_def
        q_update_def q_update_at_def reward_def py_max_key_def dt_defs Let_def)
  have m: "(OR, 200, 5) \<in> set [(OR, 200, 5), (OR, 368, 2::int)]" by simp
  have lt: "(200::real) < 186 + 168" by simp
  have s1: "scheduled self1 (OR, 200) = Some 2"
    unfolding self1_def
    by (simp add: RLSubmissionPlanner_schedule_def RLSubmissionPlanner_init_def emit_schedule_def
        q_update_def py_max_key_def dt_defs Let_def)
  have "\<forall>old. scheduled self1 (OR, 200) = Some old \<longrightarrow> old \<le> 5"
    using schedule_near_term_never_lower[OF c1 c2 m lt] by blast
  then have "(2::int) \<le> 5" using s1 by blast
  then show ?thesis using c1 c2 s1 by blast
qed


lemma schedule_runs_q_update:
  assumes "RLSubmissionPlanner_schedule self t rnd choice = Inr (out, self')"
    and "hours_to_dt t = Inr dt" and "dt_hour dt = 18"
  shows "\<exists>self1. q_update self = Inr self1 \<and> Q self' = Q self1 \<and> N self' = N self1"
proof -
  obtain self1 where q: "q_update self = Inr self1"
    using assms by (cases "q_update self") (simp_all add: RLSubmissionPlanner_schedule_def Let_def)
  obtain a nd self5 where e: "emit_schedule (self1\<lparr> metrics := \<lparr> admit_wait = 0, in_hosp_wait = 0,
                                    nerv = 0, cost = 0, overtime = 0 \<rparr> \<rparr>) (max (t + 14) nd) a
         = Inr (out, self5)" and s: "Q self' = Q self5" "N self' = N self5"
    using assms q unfolding RLSubmissionPlanner_schedule_def Let_def
    by (auto split: sum.splits if_splits)
  have "Q self5 = Q self1 \<and> N self5 = N self1"
    using e by (rule emit_schedule_Inr) simp
  then show ?thesis using q s by simp
qed




section \<open>Claims about the admission-wave planner\<close>

text \<open>
  C7. Every call of \<open>plan\<close> of the admission-wave planner on a finite list of pending
  cases returns (the roll-forward loop is a total function, and with a capacity table
  that has the entries \<open>_daily_quota\<close> reads no \<open>KeyError\<close> is raised), and the decision
  list holds the pending cases in reverse order: as many decisions as cases, and for
  distinct cases exactly one timestamp for each.
\<close>

theorem plan_terminates_and_assigns_each_case:
  assumes "cap_complete (cap self)"
  shows "\<exists>out self'. ORPlanner_plan self cases_to_plan cases_to_replan now = Inr (out, self')
           \<and> map fst out = rev cases_to_plan
           \<and> length out = length cases_to_plan
           \<and> (distinct cases_to_plan \<longrightarrow> (\<forall>c\<in>set cases_to_plan. \<exists>!t. (c, t) \<in> set out))"
proof -
  obtain out self' where p: "ORPlanner_plan self cases_to_plan cases_to_replan now = Inr (out, self')"
    using plan_ok[OF assms] by blast
  have m: "map fst out = rev cases_to_plan" using plan_result(1)[OF p] .
  have l: "length out = length cases_to_plan" using m by (metis length_map length_rev)
  have u: "\<exists>!t. (c, t) \<in> set out" if d: "distinct cases_to_plan" and c: "c \<in> set cases_to_plan" for c
  proof -
    have dm: "distinct (map fst out)" using d m by simp
    have "c \<in> fst ` set out" using c m by (metis set_map set_rev)
    then obtain t where t: "(c, t) \<in> set out" by auto
    show ?thesis using t eq_key_imp_eq_value[OF dm] by blast
  qed
  show ?thesis using p m l u by blast
qed

theorem plan_terminates_and_assigns_each_case_witness:
  "\<exists>out self'. ORPlanner_plan ORPlanner_init [1, 2, 3 :: nat] [7] 0 = Inr (out, self')
      \<and> out = [(3, 32), (2, 32), (1, 32)]"
proof -
  obtain out self' where p: "ORPlanner_plan ORPlanner_init [1, 2, 3 :: nat] [7] 0 = Inr (out, self')"
    and m: "map fst out = rev [1, 2, 3]"
    using plan_terminates_and_assigns_each_case[OF init_cap_complete, of "[1, 2, 3]" "[7]" 0]
    by blast
  have "map_sum id fst (ORPlanner_plan ORPlanner_init [1, 2, 3 :: nat] [7] 0)
          = Inr [(3, 32), (2, 32), (1, 32)]"
    by code_simp
  then have "out = [(3, 32), (2, 32), (1, 32)]" using p by simp
  then show ?thesis using p by blast
qed

text \<open>
  C9. No case identifier that occurs only in \<open>cases_to_replan\<close> appears in the decision
  list returned by \<open>plan\<close> of the admission-wave planner.
\<close>

theorem replan_requests_not_planned:
  assumes "ORPlanner_plan self cases_to_plan cases_to_replan now = Inr (out, self')"
    and "c \<in> set cases_to_replan" and "c \<notin> set cases_to_plan"
  shows "c \<notin> fst ` set out"
proof -
  have "fst ` set out = set cases_to_plan"
    using plan_result(1)[OF assms(1)] by (metis set_map set_rev)
  then show ?thesis using assms(3) by simp
qed

theorem replan_requests_not_planned_witness:
  "\<exists>out self'. ORPlanner_plan ORPlanner_init [1, 2, 3 :: nat] [7] 0 = Inr (out, self')
      \<and> 7 \<notin> fst ` set out"
proof -
  obtain out self' where p: "ORPlanner_plan ORPlanner_init [1, 2, 3 :: nat] [7] 0 = Inr (out, self')"
    using plan_ok[OF init_cap_complete] by blast
  have a: "(7 :: nat) \<in> set [7]" and b: "(7 :: nat) \<notin> set [1, 2, 3]" by simp_all
  show ?thesis using replan_requests_not_planned[OF p a b] p by blast
qed

section \<open>Claims about lead times\<close>

text \<open>
  C1, as amended. Every timestamp returned by \<open>plan\<close> is at least \<open>now + 24\<close>
  \<^item> for the bandit planner, always;
  \<^item> for the admission-wave planner, when the time of day of \<open>now\<close> is not strictly
    between 08:00 and 09:00 (in particular at every whole hour);
  \<^item> for the two fixed-schedule replay adapters, when every recorded timestamp of a
    planned case is itself at least \<open>now + 24\<close>; a case without a recorded timestamp gets
    exactly \<open>now + 24\<close>, a case with one gets the recorded timestamp.
\<close>

theorem plan_lead_time_amended:
  "(\<forall>out. RLSubmissionPlanner_plan cs rs now = Inr out \<longrightarrow> (\<forall>e\<in>set out. now + 24 \<le> snd e))
   \<and> (\<forall>out self'. \<not> (8 < py_fmod now 24 \<and> py_fmod now 24 < 9)
          \<longrightarrow> ORPlanner_plan self cs rs now = Inr (out, self')
          \<longrightarrow> (\<forall>e\<in>set out. now + 24 \<le> of_int (snd e)))
   \<and> ((\<forall>c\<in>set cs. \<forall>t. adm c = Some t \<longrightarrow> now + 24 \<le> t)
          \<longrightarrow> (\<forall>e\<in>set (FixedPlanner_plan adm cs rs now). now + 24 \<le> snd e)
            \<and> (\<forall>e\<in>set (OfflinePlanner_plan adm cs rs now). now + 24 \<le> snd e))
   \<and> FixedPlanner_plan adm cs rs now
        = map (\<lambda>c. (c, case adm c of None \<Rightarrow> now + 24 | Some t \<Rightarrow> t)) cs
   \<and> OfflinePlanner_plan adm cs rs now
        = map (\<lambda>c. (c, case adm c of None \<Rightarrow> now + 24 | Some t \<Rightarrow> t)) cs"
proof -
  have a: "\<forall>out. RLSubmissionPlanner_plan cs rs now = Inr out \<longrightarrow> (\<forall>e\<in>set out. now + 24 \<le> snd e)"
    using RL_plan_lead by blast
  have b: "\<forall>out self'. \<not> (8 < py_fmod now 24 \<and> py_fmod now 24 < 9)
          \<longrightarrow> ORPlanner_plan self cs rs now = Inr (out, self')
          \<longrightarrow> (\<forall>e\<in>set out. now + 24 \<le> of_int (snd e))"
    using OR_plan_lead by blast
  have c: "(\<forall>c\<in>set cs. \<forall>t. adm c = Some t \<longrightarrow> now + 24 \<le> t)
          \<longrightarrow> (\<forall>e\<in>set (FixedPlanner_plan adm cs rs now). now + 24 \<le> snd e)
            \<and> (\<forall>e\<in>set (OfflinePlanner_plan adm cs rs now). now + 24 \<le> snd e)"
    using Fixed_plan_lead[of cs adm now rs] by blast
  show ?thesis using a b c by (simp add: FixedPlanner_plan_def OfflinePlanner_plan_def)
qed

theorem plan_lead_time_counterexample:
  "\<not> (\<forall>e\<in>set (FixedPlanner_plan [''case_001'' \<mapsto> 0] [''case_001''] [] 100). 100 + 24 \<le> snd e)
   \<and> \<not> (\<forall>e\<in>set (OfflinePlanner_plan [''case_001'' \<mapsto> 0] [''case_001''] [] 100). 100 + 24 \<le> snd e)
   \<and> map_sum id fst (ORPlanner_plan ORPlanner_init [''case_001''] [] (17 / 2))
        = Inr [(''case_001'', 32)]
   \<and> \<not> ((17 / 2 :: real) + 24 \<le> of_int 32)"
proof -
  have a: "\<not> (\<forall>e\<in>set (FixedPlanner_plan [''case_001'' \<mapsto> 0] [''case_001''] [] 100). 100 + 24 \<le> snd e)"
    by (simp add: FixedPlanner_plan_def)
  have b: "\<not> (\<forall>e\<in>set (OfflinePlanner_plan [''case_001'' \<mapsto> 0] [''case_001''] [] 100). 100 + 24 \<le> snd e)"
    by (simp add: OfflinePlanner_plan_def)
  have c: "map_sum id fst (ORPlanner_plan ORPlanner_init [''case_001''] [] (17 / 2))
        = Inr [(''case_001'', 32)]"
    by code_simp
  have d: "\<not> ((17 / 2 :: real) + 24 \<le> of_int 32)" by simp
  show ?thesis using a b c d by blast
qed

theorem plan_lead_time_amended_witness:
  "RLSubmissionPlanner_plan [1, 2, 3 :: nat] [] 0 = Inr [(1, 32), (2, 32), (3, 32)]
   \<and> list_all (\<lambda>e. 0 + 24 \<le> snd e) [(1 :: nat, 32 :: real), (2, 32), (3, 32)]
   \<and> (\<exists>out self'. ORPlanner_plan ORPlanner_init [1, 2, 3 :: nat] [] 0 = Inr (out, self')
          \<and> list_all (\<lambda>e. (0 :: real) + 24 \<le> of_int (snd e)) out)
   \<and> list_all (\<lambda>e. 0 + 24 \<le> snd e) (FixedPlanner_plan [2 \<mapsto> 30] [1, 2, 3 :: nat] [] 0)"
proof -
  note T = plan_lead_time_amended[where now = 0 and cs = "[1, 2, 3 :: nat]" and rs = "[]"
      and self = ORPlanner_init and adm = "[2 \<mapsto> 30]"]
  have rl: "RLSubmissionPlanner_plan [1, 2, 3 :: nat] [] 0 = Inr [(1, 32), (2, 32), (3, 32)]"
    by (simp add: RLSubmissionPlanner_plan_def is_weekend_def dt_defs Let_def)
  have r1: "list_all (\<lambda>e. 0 + 24 \<le> snd e) [(1 :: nat, 32 :: real), (2, 32), (3, 32)]"
    using T rl by (simp add: list_all_iff)
  have band: "\<not> (8 < py_fmod 0 24 \<and> py_fmod 0 24 < 9)" by (simp add: py_fmod_def)
  obtain out self' where p: "ORPlanner_plan ORPlanner_init [1, 2, 3 :: nat] [] 0 = Inr (out, self')"
    using plan_ok[OF init_cap_complete] by blast
  have r2: "list_all (\<lambda>e. (0 :: real) + 24 \<le> of_int (snd e)) out"
    using T band p by (simp add: list_all_iff)
  have h: "\<forall>c\<in>set [1, 2, 3 :: nat]. \<forall>t. [2 \<mapsto> 30 :: real] c = Some t \<longrightarrow> 0 + 24 \<le> t"
    by simp
  have r3: "list_all (\<lambda>e. 0 + 24 \<le> snd e) (FixedPlanner_plan [2 \<mapsto> 30] [1, 2, 3 :: nat] [] 0)"
    using T h unfolding list_all_iff by blast
  show ?thesis using rl r1 r2 r3 p by blast
qed


section \<open>Claims about the calibration extractor\<close>

lemma fold_stats:
  "fold (\<lambda>a (ms :: ('k \<rightharpoonup> 'v) \<times> ('k \<rightharpoonup> 'w)).
           case ms of (m, s) \<Rightarrow>
             (case g a of None \<Rightarrow> (m, s) | Some (x, y) \<Rightarrow> (m(a \<mapsto> x), s(a \<mapsto> y))))
        acts (m0, s0)
   = ((\<lambda>a. if a \<in> set acts then (case g a of None \<Rightarrow> m0 a | Some xy \<Rightarrow> Some (fst xy)) else m0 a),
      (\<lambda>a. if a \<in> set acts then (case g a of None \<Rightarrow> s0 a | Some xy \<Rightarrow> Some (snd xy)) else s0 a))"
proof (induction acts arbitrary: m0 s0)
  case Nil
  then show ?case by simp
next
  case (Cons a acts)
  show ?case
  proof (cases "g a")
    case None
    then show ?thesis using Cons.IH[of m0 s0] by (auto simp: fun_eq_iff)
  next
    case (Some xy)
    obtain x y where xy: "xy = (x, y)" by (cases xy)
    let ?F = "\<lambda>a (ms :: ('k \<rightharpoonup> 'v) \<times> ('k \<rightharpoonup> 'w)).
           case ms of (m, s) \<Rightarrow>
             (case g a of None \<Rightarrow> (m, s) | Some (x, y) \<Rightarrow> (m(a \<mapsto> x), s(a \<mapsto> y)))"
    have "fold ?F (a # acts) (m0, s0) = fold ?F acts (m0(a \<mapsto> x), s0(a \<mapsto> y))"
      using Some xy by simp
    also have "\<dots> = ((\<lambda>b. if b \<in> set acts
                 then (case g b of None \<Rightarrow> (m0(a \<mapsto> x)) b | Some xy \<Rightarrow> Some (fst xy))
                 else (m0(a \<mapsto> x)) b),
             (\<lambda>b. if b \<in> set acts
                 then (case g b of None \<Rightarrow> (s0(a \<mapsto> y)) b | Some xy \<Rightarrow> Some (snd xy))
                 else (s0(a \<mapsto> y)) b))"
      by (rule Cons.IH)
    also have "\<dots> = ((\<lambda>b. if b \<in> set (a # acts)
                 then (case g b of None \<Rightarrow> m0 b | Some xy \<Rightarrow> Some (fst xy)) else m0 b),
             (\<lambda>b. if b \<in> set (a # acts)
                 then (case g b of None \<Rightarrow> s0 b | Some xy \<Rightarrow> Some (snd xy)) else s0 b))"
      using Some xy by (auto simp: fun_eq_iff split: option.splits)
    finally show ?thesis .
  qed
qed

lemma activity_stats_absent: "a \<notin> fst ` set df \<Longrightarrow> activity_stats df a = None"
proof -
  assume "a \<notin> fst ` set df"
  then have "filter (\<lambda>r. fst r = a) df = []" by (auto simp: filter_empty_conv)
  then show ?thesis by (simp add: activity_stats_def)
qed

lemma pm_params_eq:
  "pm_params df = ((\<lambda>a. map_option fst (activity_stats df a)),
                 (\<lambda>a. map_option snd (activity_stats df a)))"
proof -
  have s: "set (unique (map fst df)) = fst ` set df" by (simp add: unique_def)
  have "pm_params df
      = ((\<lambda>a. if a \<in> fst ` set df
               then (case activity_stats df a of None \<Rightarrow> None | Some xy \<Rightarrow> Some (fst xy)) else None),
         (\<lambda>a. if a \<in> fst ` set df
               then (case activity_stats df a of None \<Rightarrow> None | Some xy \<Rightarrow> Some (snd xy)) else None))"
    unfolding pm_params_def using fold_stats[of "activity_stats df" "unique (map fst df)" Map.empty Map.empty]
    by (simp add: s)
  then show ?thesis
    by (auto simp: fun_eq_iff activity_stats_absent split: option.splits)
qed

lemma sqrt_80000: "\<bar>sqrt 80000 - 28284 / 100\<bar> \<le> 1 / 10"
proof -
  have "(28274 / 100 :: real)\<^sup>2 \<le> 80000" by (simp add: power2_eq_square)
  then have lo: "28274 / 100 \<le> sqrt 80000" by (rule real_le_rsqrt)
  have "(80000 :: real) \<le> (28294 / 100)\<^sup>2" by (simp add: power2_eq_square)
  then have hi: "sqrt 80000 \<le> 28294 / 100" by (intro real_le_lsqrt) simp_all
  show ?thesis using lo hi by linarith
qed


lemma stats_two_rows:
  assumes "map duration (filter (\<lambda>r. fst r = a) df) = [Some 1800, Some 2200]"
  shows "activity_stats df a = Some (Num 2000, Num (sqrt 80000))"
proof -
  have len: "length (filter (\<lambda>r. fst r = a) df) = 2"
    using arg_cong[OF assms, of length] by simp
  have m: "series_mean [Some 1800, Some 2200] = Num 2000"
    by (simp add: series_mean_def dropna_def)
  have sd: "series_std [Some 1800, Some 2200] = Num (sqrt 80000)"
    by (simp add: series_std_def dropna_def Let_def power2_eq_square)
  show ?thesis unfolding activity_stats_def Let_def assms using len m sd by simp
qed

lemma stats_all_undefined:
  assumes "filter (\<lambda>r. fst r = a) df \<noteq> []" and "\<forall>r\<in>set df. fst r = a \<longrightarrow> duration r = None"
  shows "activity_stats df a = Some (Num 3600, Num 1800)"
proof -
  have "list_all (\<lambda>d. d = None) (map duration (filter (\<lambda>r. fst r = a) df))"
    using assms(2) by (simp add: list_all_iff)
  then show ?thesis using assms(1) by (simp add: activity_stats_def Let_def)
qed

text \<open>
  C8, as amended. Given exactly two rows for activity INTAKE with durations 1800 s and
  2200 s, the extractor writes \<open>mean_sec[INTAKE] = 2000\<close> and \<open>std_sec[INTAKE]\<close> equal to
  the square root of 80000, which is within 0.1 of 282.84. An activity all of whose rows
  have an undefined duration gets the defaults 3600 and 1800. An activity with zero rows
  gets no entry in \<open>mean_sec\<close> or \<open>std_sec\<close>.
\<close>

theorem calibration_extractor_amended:
  "(map duration (filter (\<lambda>r. fst r = ''INTAKE'') df) = [Some 1800, Some 2200]
      \<longrightarrow> fst (pm_params df) ''INTAKE'' = Some (Num 2000)
        \<and> snd (pm_params df) ''INTAKE'' = Some (Num (sqrt 80000))
        \<and> \<bar>sqrt 80000 - 28284 / 100\<bar> \<le> 1 / 10)
   \<and> (filter (\<lambda>r. fst r = a) df \<noteq> [] \<and> (\<forall>r\<in>set df. fst r = a \<longrightarrow> duration r = None)
      \<longrightarrow> fst (pm_params df) a = Some (Num 3600) \<and> snd (pm_params df) a = Some (Num 1800))
   \<and> (filter (\<lambda>r. fst r = a) df = []
      \<longrightarrow> fst (pm_params df) a = None \<and> snd (pm_params df) a = None)"
proof -
  have "activity_stats df a = None" if "filter (\<lambda>r. fst r = a) df = []"
    using that by (simp add: activity_stats_def)
  then show ?thesis
    using stats_two_rows[of "''INTAKE''" df] stats_all_undefined[of a df] sqrt_80000
    by (auto simp: pm_params_eq)
qed

theorem calibration_extractor_counterexample:
  "\<not> (fst (pm_params [(''INTAKE'', Some 0, Some 1800), (''INTAKE'', Some 0, Some 2200)]) ''TRIAGE''
         = Some (Num 3600)
      \<and> snd (pm_params [(''INTAKE'', Some 0, Some 1800), (''INTAKE'', Some 0, Some 2200)]) ''TRIAGE''
         = Some (Num 1800))"
  by (simp add: pm_params_eq activity_stats_def)

theorem calibration_extractor_amended_witness:
  "fst (pm_params [(''INTAKE'', Some 0, Some 1800), (''INTAKE'', Some 0, Some 2200)]) ''INTAKE''
     = Some (Num 2000)
   \<and> snd (pm_params [(''INTAKE'', Some 0, Some 1800), (''INTAKE'', Some 0, Some 2200)]) ''INTAKE''
     = Some (Num (sqrt 80000))
   \<and> fst (pm_params [(''INTAKE'', Some 0, Some 1800), (''INTAKE'', Some 0, Some 2200)]) ''TRIAGE''
     = None
   \<and> fst (pm_params [(''ER'', None, Some 5)]) ''ER'' = Some (Num 3600)
   \<and> snd (pm_params [(''ER'', None, Some 5)]) ''ER'' = Some (Num 1800)"
proof -
  let ?df = "[(''INTAKE'', Some 0, Some 1800), (''INTAKE'', Some 0, Some 2200)] :: event_row list"
  let ?df1 = "[(''ER'', None, Some 5)] :: event_row list"
  have h1: "map duration (filter (\<lambda>r. fst r = ''INTAKE'') ?df) = [Some 1800, Some 2200]"
    by (simp add: duration_def)
  have h2: "filter (\<lambda>r. fst r = ''TRIAGE'') ?df = []" by simp
  have h3: "filter (\<lambda>r. fst r = ''ER'') ?df1 \<noteq> []
              \<and> (\<forall>r\<in>set ?df1. fst r = ''ER'' \<longrightarrow> duration r = None)"
    by (simp add: duration_def)
  show ?thesis
    using calibration_extractor_amended[of ?df "''TRIAGE''"]
      calibration_extractor_amended[of ?df1 "''ER''"] h1 h2 h3
    by blast
qed

section \<open>Claims about the warm-start scenario\<close>

lemma weekly_quota: "daily_quota WEEKLY_CAP (dow_1_to_7 t) = Inr 54"
  using dow_range[of t] by (simp add: daily_quota_def WEEKLY_CAP_def Let_def)

lemma adjust_quota_200:
  assumes "200 \<le> backlog" and "dse < 14"
  shows "adjust_quota 54 backlog dse = 72"
proof -
  have "33 \<le> backlog div 6" using assms(1) by linarith
  then show ?thesis using assms(2) by (simp add: adjust_quota_def Let_def)
qed

lemma split_quota_72: "split_quota 72 wave_frac = [26, 16, 11, 9, 6, 4]"
  by (simp add: split_quota_def wave_frac_def py_int_def sorted_reverse_def Let_def)

lemma horizon_day_fresh:
  assumes "200 \<le> backlog" and "b div 24 < 14"
  shows "\<exists>slots. horizon_day WEEKLY_CAP [] b backlog off = Inr slots
           \<and> map (\<lambda>sl. (fst sl, fst (snd sl))) slots
               = [(b + 24 * off, 26), (b + 24 * off + 2, 16), (b + 24 * off + 4, 11),
                  (b + 24 * off + 6, 9), (b + 24 * off + 8, 6), (b + 24 * off + 12, 4)]"
  unfolding horizon_day_def Let_def weekly_quota
  by (simp add: adjust_quota_200[OF assms] split_quota_72 waves_upt dict_get_def)
     (simp add: waves_def)

lemma fill_slot_full:
  assumes "0 < cp" and "nat cp \<le> length pending"
  shows "\<exists>p' u'. fill_slot (t, cp, key) (pending, u, out)
                    = (p', u', out @ map (\<lambda>c. (c, t)) (rev (drop (length pending - nat cp) pending)))
               \<and> length p' = length pending - nat cp"
proof -
  have ne: "pending \<noteq> []" using assms by auto
  have m: "min cp (int (length pending)) = cp" using assms by linarith
  show ?thesis using ne m assms(1) by (simp add: fill_slot_place place_def)
qed

lemma fill_slots_full:
  assumes "\<forall>sl\<in>set slots. 0 < fst (snd sl)"
    and "sum_list (map (\<lambda>sl. nat (fst (snd sl))) slots) \<le> length pending"
  shows "\<exists>p' u' ext. fold fill_slot slots (pending, u, out) = (p', u', out @ ext)
           \<and> map snd ext = concat (map (\<lambda>sl. replicate (nat (fst (snd sl))) (fst sl)) slots)"
  using assms
proof (induction slots arbitrary: pending u out)
  case Nil
  then show ?case by simp
next
  case (Cons sl slots)
  obtain t cp key where sl: "sl = (t, cp, key)" by (cases sl)
  have cp: "0 < cp" and le: "nat cp \<le> length pending" using Cons.prems sl by simp_all
  obtain p1 u1 where f1: "fill_slot (t, cp, key) (pending, u, out)
                    = (p1, u1, out @ map (\<lambda>c. (c, t)) (rev (drop (length pending - nat cp) pending)))"
    and l1: "length p1 = length pending - nat cp"
    using fill_slot_full[OF cp le] by blast
  let ?e1 = "map (\<lambda>c. (c, t)) (rev (drop (length pending - nat cp) pending))"
  have rest: "sum_list (map (\<lambda>sl. nat (fst (snd sl))) slots) \<le> length p1"
    using Cons.prems(2) sl l1 by simp
  obtain p' u' ext where f2: "fold fill_slot slots (p1, u1, out @ ?e1) = (p', u', (out @ ?e1) @ ext)"
    and e2: "map snd ext = concat (map (\<lambda>sl. replicate (nat (fst (snd sl))) (fst sl)) slots)"
    using Cons.IH[OF _ rest, of u1 "out @ ?e1"] Cons.prems(1) by auto
  have m1: "map snd ?e1 = replicate (nat cp) t"
    using le by (simp add: comp_def map_replicate_const)
  have "fold fill_slot (sl # slots) (pending, u, out) = (p', u', out @ (?e1 @ ext))"
    using f1 f2 sl by simp
  moreover have "map snd (?e1 @ ext)
                  = concat (map (\<lambda>sl. replicate (nat (fst (snd sl))) (fst sl)) (sl # slots))"
    using m1 e2 sl by simp
  ultimately show ?case by blast
qed


text \<open>
  C5. A fresh admission-wave planner (weekly capacity OR 5, A-beds 30, B-beds 40, intake 4,
  ER 9 on all days, empty ledger) that is given 200 pending cases during the warm-start
  period (the first admission day \<open>b\<close> is before day 14) computes the base quota 54 and the
  day-1 quota 72, within [56, 72], splits it into the six waves 26, 16, 11, 9, 6, 4, and
  its decision list starts with exactly these 72 day-1 placements, wave by wave; every
  later decision is for day 2 or after.
\<close>

theorem warm_start_scenario:
  assumes "length cases_to_plan = 200"
    and "b = next_8am_at_or_after (now + 24)" and "b div 24 < 14"
  shows "\<exists>out self'.
           ORPlanner_plan ORPlanner_init cases_to_plan cases_to_replan now = Inr (out, self')
         \<and> daily_quota (cap ORPlanner_init) (dow_1_to_7 b) = Inr 54
         \<and> adjust_quota 54 (200 + int (length cases_to_replan)) (b div 24) = 72
         \<and> split_quota 72 wave_frac = [26, 16, 11, 9, 6, 4]
         \<and> take 72 (map snd out)
             = replicate 26 b @ replicate 16 (b + 2) @ replicate 11 (b + 4)
               @ replicate 9 (b + 6) @ replicate 6 (b + 8) @ replicate 4 (b + 12)
         \<and> list_all (\<lambda>t. b + 24 \<le> t) (drop 72 (map snd out))
         \<and> map fst out = rev cases_to_plan"
proof -
  let ?bl = "int (length cases_to_plan) + int (length cases_to_replan)"
  let ?L = "[(b, 26), (b + 2, 16), (b + 4, 11), (b + 6, 9), (b + 8, 6), (b + 12, 4)]
              :: (int \<times> int) list"
  let ?R = "replicate 26 b @ replicate 16 (b + 2) @ replicate 11 (b + 4)
               @ replicate 9 (b + 6) @ replicate 6 (b + 8) @ replicate 4 (b + 12)"
  have bl: "200 \<le> ?bl" using assms(1) by simp
  have init: "cap ORPlanner_init = WEEKLY_CAP" "used ORPlanner_init = []"
    by (simp_all add: ORPlanner_init_def)
  obtain out self' where p: "ORPlanner_plan ORPlanner_init cases_to_plan cases_to_replan now
                               = Inr (out, self')"
    using plan_ok[OF init_cap_complete] by blast
  have ne: "cases_to_plan \<noteq> []" using assms(1) by auto
  from p obtain slots0 slots1 u' where
    s0: "horizon_day WEEKLY_CAP [] b ?bl 0 = Inr slots0"
    and s1: "horizon_day WEEKLY_CAP [] b ?bl 1 = Inr slots1"
    and r: "roll WEEKLY_CAP b (int (length cases_to_replan)) 2
         (fold fill_slot slots1 (fold fill_slot slots0 (cases_to_plan, [], []))) = Inr ([], u', out)"
    using ne unfolding assms(2) by (cases rule: plan_Inr_cases) (simp_all add: init)
  have L: "map (\<lambda>sl. (fst sl, fst (snd sl))) slots0 = ?L"
    using horizon_day_fresh[OF bl assms(3), of 0] s0 by simp
  have caps: "map (\<lambda>sl. fst (snd sl)) slots0 = map snd ?L"
    using arg_cong[OF L, of "map snd"] by (simp add: comp_def)
  have pos: "\<forall>sl\<in>set slots0. 0 < fst (snd sl)"
  proof
    fix sl assume "sl \<in> set slots0"
    then have "fst (snd sl) \<in> set (map (\<lambda>sl. fst (snd sl)) slots0)" by simp
    then show "0 < fst (snd sl)" unfolding caps by auto
  qed
  have sm: "sum_list (map (\<lambda>sl. nat (fst (snd sl))) slots0) = 72"
  proof -
    have "map (\<lambda>sl. nat (fst (snd sl))) slots0 = map nat (map (\<lambda>sl. fst (snd sl)) slots0)"
      by (simp add: comp_def)
    then show ?thesis unfolding caps by simp
  qed
  have cc: "concat (map (\<lambda>sl. replicate (nat (fst (snd sl))) (fst sl)) slots0) = ?R"
  proof -
    have "map (\<lambda>sl. replicate (nat (fst (snd sl))) (fst sl)) slots0
            = map (\<lambda>e. replicate (nat (snd e)) (fst e)) (map (\<lambda>sl. (fst sl, fst (snd sl))) slots0)"
      by (simp add: comp_def)
    then show ?thesis unfolding L by simp
  qed
  obtain p1 u1 ext1 where f1: "fold fill_slot slots0 (cases_to_plan, [], []) = (p1, u1, [] @ ext1)"
    and e1: "map snd ext1 = ?R"
    using fill_slots_full[OF pos, of cases_to_plan "[]" "[]"] sm assms(1) cc by auto
  let ?P = "\<lambda>t. b + 24 \<le> t"
  let ?st1 = "(p1, u1, ext1) :: 'a fill_state"
  let ?st2 = "fold fill_slot slots1 ?st1"
  have t1: "\<forall>sl\<in>set slots1. ?P (fst sl)" using horizon_day_times[OF s1] by simp
  have x1: "out_ext ?P ?st1 ?st2" using fold_fill_slot_out_ext[OF t1] .
  have "out_ext (\<lambda>t. b + 24 * 2 \<le> t) ?st2 ([], u', out)"
    using roll_out_ext[OF r[unfolded f1]] by simp
  then have x2: "out_ext ?P ?st2 ([], u', out)" by (rule out_ext_mono) simp
  obtain ext where o: "out = ext1 @ ext" and pe: "list_all (\<lambda>e. ?P (snd e)) ext"
    using out_ext_trans[OF x1 x2] unfolding out_ext_def by auto
  have len: "length ext1 = 72" using arg_cong[OF e1, of length] by simp
  have a: "take 72 (map snd out) = ?R" using o e1 len by simp
  have "drop 72 (map snd out) = map snd ext" using o len by simp
  then have d: "list_all ?P (drop 72 (map snd out))" using pe by (simp add: list_all_iff)
  have q: "daily_quota (cap ORPlanner_init) (dow_1_to_7 b) = Inr 54"
    by (simp add: init weekly_quota)
  have aq: "adjust_quota 54 (200 + int (length cases_to_replan)) (b div 24) = 72"
    by (rule adjust_quota_200) (use assms(3) in simp_all)
  show ?thesis
    using p q aq split_quota_72 a d plan_result(1)[OF p] by blast
qed

theorem warm_start_scenario_witness:
  "\<exists>out self'. ORPlanner_plan ORPlanner_init [0..<200] [] 0 = Inr (out, self')
      \<and> take 72 (map snd out)
           = replicate 26 32 @ replicate 16 34 @ replicate 11 36
             @ replicate 9 38 @ replicate 6 40 @ replicate 4 44
      \<and> list_all (\<lambda>t. 56 \<le> t) (drop 72 (map snd out))"
proof -
  have h1: "length [0..<200] = 200" by simp
  have h2: "(32 :: int) = next_8am_at_or_after (0 + 24)"
    by (simp add: next_8am_at_or_after_def py_int_def py_fmod_def)
  have h3: "(32 :: int) div 24 < 14" by simp
  show ?thesis using warm_start_scenario[OF h1 h2 h3, of "[]"] by auto
qed

section \<open>Claims about the capacity ledger\<close>

text \<open>
  The ledger bucket of wave \<open>i\<close> on the day at offset \<open>off\<close> from the first admission day
  \<open>b\<close>, and the sub-quota that \<open>plan\<close> computes for it when the queue holds \<open>m\<close> cases at
  the start of that day. The two horizon days use \<open>days_since_epoch = b // 24\<close>, the
  roll-forward days add the offset.
\<close>

definition wave_key :: "int \<Rightarrow> int \<Rightarrow> nat \<Rightarrow> ledger_key" where
  "wave_key b off i =
     ((b + 24 * off) div 168, dow_1_to_7 (b + 24 * off), (b + 24 * off + waves ! i) mod 24)"

definition wave_subquota ::
  "(ResourceType \<times> int \<rightharpoonup> int) \<Rightarrow> int \<Rightarrow> int \<Rightarrow> int \<Rightarrow> nat \<Rightarrow> nat \<Rightarrow> int option" where
  "wave_subquota c b n_replan off i m =
     (case daily_quota c (dow_1_to_7 (b + 24 * off)) of
        Inl e \<Rightarrow> None
      | Inr q \<Rightarrow>
          Some (split_quota
                  (adjust_quota q (int m + n_replan) (b div 24 + (if off < 2 then 0 else off)))
                  wave_frac ! i))"

text \<open>
  A count \<open>v\<close> of bucket \<open>key\<close> is within the bucket's sub-quota: the bucket is a wave of
  some day of the call, and \<open>v\<close> is at most the sub-quota computed for it, for the queue
  length \<open>m\<close> of that day (on the two horizon days the whole queue of \<open>L\<close> cases).
\<close>

definition within_subquota ::
  "(ResourceType \<times> int \<rightharpoonup> int) \<Rightarrow> int \<Rightarrow> int \<Rightarrow> nat \<Rightarrow> ledger_key \<Rightarrow> int \<Rightarrow> bool" where
  "within_subquota c b n_replan L key v =
     (\<exists>off i m s. 0 \<le> off \<and> i < length waves \<and> 0 < m \<and> m \<le> L \<and> (off < 2 \<longrightarrow> m = L)
        \<and> key = wave_key b off i \<and> wave_subquota c b n_replan off i m = Some s \<and> v \<le> s)"

text \<open>One or more placements: every bucket keeps its count, or grows within its sub-quota.\<close>

definition ledger_step ::
  "(ResourceType \<times> int \<rightharpoonup> int) \<Rightarrow> int \<Rightarrow> int \<Rightarrow> nat
     \<Rightarrow> (ledger_key \<times> int) list \<Rightarrow> (ledger_key \<times> int) list \<Rightarrow> bool" where
  "ledger_step c b n_replan L u u' =
     (\<forall>key. dict_get u' key 0 = dict_get u key 0
          \<or> (dict_get u key 0 < dict_get u' key 0
              \<and> within_subquota c b n_replan L key (dict_get u' key 0)))"

lemma ledger_step_refl: "ledger_step c b n L u u"
  by (simp add: ledger_step_def)

lemma ledger_step_trans:
  assumes "ledger_step c b n L u u'" and "ledger_step c b n L u' u''"
  shows "ledger_step c b n L u u''"
  unfolding ledger_step_def
proof
  fix key
  have a: "dict_get u' key 0 = dict_get u key 0
          \<or> (dict_get u key 0 < dict_get u' key 0
              \<and> within_subquota c b n L key (dict_get u' key 0))"
    using assms(1) unfolding ledger_step_def by blast
  have b: "dict_get u'' key 0 = dict_get u' key 0
          \<or> (dict_get u' key 0 < dict_get u'' key 0
              \<and> within_subquota c b n L key (dict_get u'' key 0))"
    using assms(2) unfolding ledger_step_def by blast
  show "dict_get u'' key 0 = dict_get u key 0
          \<or> (dict_get u key 0 < dict_get u'' key 0
              \<and> within_subquota c b n L key (dict_get u'' key 0))"
    using a b by auto
qed

lemma place_ledger_step:
  assumes "k = 0 \<or> within_subquota c b n L key (dict_get u key 0 + int k)"
  shows "ledger_step c b n L u (fst (snd (place t key k (p, u, out))))"
  unfolding ledger_step_def
proof
  fix key'
  show "dict_get (fst (snd (place t key k (p, u, out)))) key' 0 = dict_get u key' 0
          \<or> (dict_get u key' 0 < dict_get (fst (snd (place t key k (p, u, out)))) key' 0
              \<and> within_subquota c b n L key' (dict_get (fst (snd (place t key k (p, u, out)))) key' 0))"
    using assms by (cases "key' = key") (auto simp: place_def dict_get_update)
qed

lemma roll_wave_ledger_step:
  assumes "2 \<le> off" and "i < length waves" and "0 < m" and "m \<le> L"
    and "wave_subquota c b n off i m = Some (subqs ! i)"
  shows "ledger_step c b n L (fst (snd st))
           (fst (snd (roll_wave subqs (b + 24 * off) ((b + 24 * off) div 168)
                        (dow_1_to_7 (b + 24 * off)) i st)))"
proof -
  obtain p u out where st: "st = (p, u, out)" by (cases st)
  let ?key = "((b + 24 * off) div 168, dow_1_to_7 (b + 24 * off), (b + 24 * off + waves ! i) mod 24)"
  let ?k = "nat (min (max 0 (subqs ! i - dict_get u ?key 0)) (int (length p)))"
  show ?thesis
  proof (cases "p = []")
    case True
    then show ?thesis by (simp add: st roll_wave_place ledger_step_refl)
  next
    case False
    have "?k = 0 \<or> within_subquota c b n L ?key (dict_get u ?key 0 + int ?k)"
    proof (cases "?k = 0")
      case True then show ?thesis by simp
    next
      case k: False
      then have "dict_get u ?key 0 + int ?k \<le> subqs ! i" by linarith
      moreover have "?key = wave_key b off i" by (simp add: wave_key_def)
      moreover have "0 \<le> off" "off < 2 \<longrightarrow> m = L" using assms(1) by simp_all
      ultimately have "within_subquota c b n L ?key (dict_get u ?key 0 + int ?k)"
        unfolding within_subquota_def using assms(2-5) by blast
      then show ?thesis by simp
    qed
    then have "ledger_step c b n L u (fst (snd (place (b + 24 * off + waves ! i) ?key ?k (p, u, out))))"
      by (rule place_ledger_step)
    then show ?thesis using False by (simp add: st roll_wave_place)
  qed
qed

lemma fold_roll_wave_ledger_step:
  assumes "2 \<le> off" and "0 < m" and "m \<le> L"
    and "\<forall>i\<in>set is. i < length waves \<and> wave_subquota c b n off i m = Some (subqs ! i)"
  shows "ledger_step c b n L (fst (snd st))
           (fst (snd (fold (roll_wave subqs (b + 24 * off) ((b + 24 * off) div 168)
                        (dow_1_to_7 (b + 24 * off))) is st)))"
  using assms(4)
proof (induction "is" arbitrary: st)
  case Nil
  then show ?case by (simp add: ledger_step_refl)
next
  case (Cons i "is")
  let ?st1 = "roll_wave subqs (b + 24 * off) ((b + 24 * off) div 168) (dow_1_to_7 (b + 24 * off)) i st"
  have i: "i < length waves" "wave_subquota c b n off i m = Some (subqs ! i)"
    using Cons.prems by simp_all
  have a: "ledger_step c b n L (fst (snd st)) (fst (snd ?st1))"
    by (rule roll_wave_ledger_step[OF assms(1) i(1) assms(2,3) i(2)])
  have b: "ledger_step c b n L (fst (snd ?st1))
           (fst (snd (fold (roll_wave subqs (b + 24 * off) ((b + 24 * off) div 168)
                        (dow_1_to_7 (b + 24 * off))) is ?st1)))"
    using Cons.IH Cons.prems by simp
  show ?case using ledger_step_trans[OF a b] by simp
qed

lemma roll_day_ledger_step:
  assumes "roll_day c b n off st = Inr st'" and "2 \<le> off" and "fst st \<noteq> []"
    and "length (fst st) \<le> L"
  shows "ledger_step c b n L (fst (snd st)) (fst (snd st'))"
proof -
  obtain q where q: "daily_quota c (dow_1_to_7 (b + 24 * off)) = Inr q"
    using assms(1) by (auto simp: roll_day_def Let_def split: sum.splits)
  let ?subqs = "split_quota (adjust_quota q (int (length (fst st)) + n) (b div 24 + off)) wave_frac"
  have st': "st' = fold (roll_wave ?subqs (b + 24 * off) ((b + 24 * off) div 168)
                        (dow_1_to_7 (b + 24 * off))) [0..<length waves] st"
    using assms(1) q by (simp add: roll_day_def Let_def)
  have m: "0 < length (fst st)" using assms(3) by simp
  have w: "\<forall>i\<in>set [0..<length waves]. i < length waves
             \<and> wave_subquota c b n off i (length (fst st)) = Some (?subqs ! i)"
    using assms(2) q by (simp add: wave_subquota_def)
  show ?thesis unfolding st' by (rule fold_roll_wave_ledger_step[OF assms(2) m assms(4) w])
qed

lemma roll_ledger_step:
  "roll c b n off st = Inr st' \<Longrightarrow> 2 \<le> off \<Longrightarrow> length (fst st) \<le> L \<Longrightarrow>
   ledger_step c b n L (fst (snd st)) (fst (snd st'))"
proof (induction c b n off st arbitrary: st' rule: roll.induct)
  case (1 c b n off st)
  show ?case
  proof (cases "fst st = []")
    case True
    then show ?thesis using "1.prems"(1) by (subst (asm) roll.simps) (auto simp: ledger_step_refl)
  next
    case False
    then obtain st1 where rd: "roll_day c b n off st = Inr st1"
      and r: "roll c b n (off + 1) st1 = Inr st'"
      using "1.prems"(1) by (subst (asm) roll.simps) (simp split: sum.splits)
    have a: "ledger_step c b n L (fst (snd st)) (fst (snd st1))"
      using roll_day_ledger_step[OF rd "1.prems"(2) False "1.prems"(3)] .
    have l: "length (fst st1) \<le> L" using roll_day_length[OF rd] "1.prems"(3) by simp
    have b: "ledger_step c b n L (fst (snd st1)) (fst (snd st'))"
      using "1.IH"[OF False rd r _ l] "1.prems"(2) by simp
    show ?thesis using ledger_step_trans[OF a b] .
  qed
qed


lemma hour_inj:
  fixes x a c :: int
  assumes "(x + a) mod 24 = (x + c) mod 24" and "0 \<le> a" "a < 24" "0 \<le> c" "c < 24"
  shows "a = c"
proof (rule ccontr)
  assume ne: "a \<noteq> c"
  have "24 dvd (x + a) - (x + c)" using assms(1) by (simp add: mod_eq_dvd_iff)
  then have d: "24 dvd a - c" by simp
  have "a - c \<noteq> 0" using ne by simp
  then have "\<bar>24 :: int\<bar> \<le> \<bar>a - c\<bar>" using d by (rule dvd_imp_le_int)
  then show False using assms(2-5) by linarith
qed

lemma waves_range: "i < length waves \<Longrightarrow> 0 \<le> waves ! i \<and> waves ! i < 24"
  by (auto simp: waves_def nth_Cons split: nat.splits)

lemma waves_distinct: "distinct waves"
  by (simp add: waves_def)

lemma wave_key_inj:
  assumes "wave_key b off i = wave_key b off' i'" and "i < length waves" and "i' < length waves"
  shows "off = off' \<and> i = i'"
proof -
  have k: "key_day (wave_key b off i) = b div 24 + off" for off i
    by (simp add: wave_key_def key_day_def day_key)
  have off: "off = off'" using arg_cong[OF assms(1), of key_day] by (simp add: k)
  have "(b + 24 * off + waves ! i) mod 24 = (b + 24 * off + waves ! i') mod 24"
    using assms(1) off by (simp add: wave_key_def)
  then have "waves ! i = waves ! i'"
    using hour_inj waves_range[OF assms(2)] waves_range[OF assms(3)] by blast
  then have "i = i'" using waves_distinct assms(2,3) by (simp add: nth_eq_iff_index_eq)
  then show ?thesis using off by simp
qed

text \<open>
  A slot of the two-day horizon is consistent with the ledger \<open>u\<close>: its room is the
  bucket's sub-quota less the count that \<open>u\<close> records for the bucket.
\<close>

definition slot_ok ::
  "(ResourceType \<times> int \<rightharpoonup> int) \<Rightarrow> int \<Rightarrow> int \<Rightarrow> nat \<Rightarrow> (ledger_key \<times> int) list \<Rightarrow> slot \<Rightarrow> bool" where
  "slot_ok c b n_replan L u sl =
     (\<exists>off i s. (off = 0 \<or> off = 1) \<and> i < length waves \<and> snd (snd sl) = wave_key b off i
        \<and> wave_subquota c b n_replan off i L = Some s
        \<and> fst (snd sl) = max 0 (s - dict_get u (snd (snd sl)) 0))"

lemma fill_slots_ledger_step:
  assumes "0 < L"
  shows "distinct (map (\<lambda>sl. snd (snd sl)) slots) \<Longrightarrow> \<forall>sl\<in>set slots. slot_ok c b n L u sl \<Longrightarrow>
         ledger_step c b n L u (fst (snd (fold fill_slot slots (p, u, out))))"
proof (induction slots arbitrary: p u out)
  case Nil
  then show ?case by (simp add: ledger_step_refl)
next
  case (Cons sl slots)
  obtain t cp key where sl: "sl = (t, cp, key)" by (cases sl)
  have d: "distinct (map (\<lambda>sl. snd (snd sl)) slots)" and nk: "key \<notin> (\<lambda>sl. snd (snd sl)) ` set slots"
    using Cons.prems(1) sl by simp_all
  show ?case
  proof (cases "p = [] \<or> min cp (int (length p)) \<le> 0")
    case True
    then have "fill_slot sl (p, u, out) = (p, u, out)" by (simp add: sl fill_slot_place)
    then show ?thesis using Cons.IH[OF d, of u p out] Cons.prems(2) by simp
  next
    case False
    let ?k = "nat (min cp (int (length p)))"
    let ?u1 = "AList.update key (dict_get u key 0 + int ?k) u"
    have f: "fill_slot sl (p, u, out) = place t key ?k (p, u, out)"
      using False by (simp add: sl fill_slot_place)
    obtain p1 out1 where pl: "place t key ?k (p, u, out) = (p1, ?u1, out1)"
      by (simp add: place_def)
    obtain off i s where o: "off = 0 \<or> off = 1" "i < length waves" "key = wave_key b off i"
      "wave_subquota c b n off i L = Some s" "cp = max 0 (s - dict_get u key 0)"
      using Cons.prems(2) sl unfolding slot_ok_def by auto
    have "dict_get u key 0 + int ?k \<le> s" using False o(5) by linarith
    moreover have "0 \<le> off" "off < 2 \<longrightarrow> L = L" using o(1) by auto
    ultimately have "within_subquota c b n L key (dict_get u key 0 + int ?k)"
      unfolding within_subquota_def using o(2,3,4) assms by blast
    then have a: "ledger_step c b n L u ?u1"
      using place_ledger_step[of ?k c b n L key u t p out] pl by simp
    have ok1: "\<forall>sl\<in>set slots. slot_ok c b n L ?u1 sl"
    proof
      fix sl' assume m: "sl' \<in> set slots"
      then have "snd (snd sl') \<noteq> key" using nk by auto
      then have "dict_get ?u1 (snd (snd sl')) 0 = dict_get u (snd (snd sl')) 0"
        by (simp add: dict_get_update)
      moreover have "slot_ok c b n L u sl'" using Cons.prems(2) m by simp
      ultimately show "slot_ok c b n L ?u1 sl'" unfolding slot_ok_def by simp
    qed
    have b: "ledger_step c b n L ?u1 (fst (snd (fold fill_slot slots (p1, ?u1, out1))))"
      by (rule Cons.IH[OF d ok1])
    show ?thesis using ledger_step_trans[OF a b] f pl by simp
  qed
qed

lemma horizon_day_slot_ok:
  assumes "horizon_day c u b (int L + n) off = Inr slots" and "off = 0 \<or> off = 1"
  shows "map (\<lambda>sl. snd (snd sl)) slots = map (wave_key b off) [0..<length waves]"
    and "\<forall>sl\<in>set slots. slot_ok c b n L u sl"
proof -
  obtain q where q: "daily_quota c (dow_1_to_7 (b + 24 * off)) = Inr q"
    using assms(1) by (auto simp: horizon_day_def Let_def split: sum.splits)
  let ?subqs = "split_quota (adjust_quota q (int L + n) (b div 24)) wave_frac"
  have sl: "slots = map (\<lambda>idx. (b + 24 * off + waves ! idx,
                         max 0 (?subqs ! idx - dict_get u (wave_key b off idx) 0),
                         wave_key b off idx)) [0..<length waves]"
    using assms(1) q by (simp add: horizon_day_def Let_def wave_key_def)
  show "map (\<lambda>sl. snd (snd sl)) slots = map (wave_key b off) [0..<length waves]"
    unfolding sl by (simp add: comp_def)
  have w: "wave_subquota c b n off idx L = Some (?subqs ! idx)" for idx
    using assms(2) q by (auto simp: wave_subquota_def)
  show "\<forall>sl\<in>set slots. slot_ok c b n L u sl"
  proof
    fix x assume "x \<in> set slots"
    then obtain idx where idx: "idx < length waves"
      and x: "x = (b + 24 * off + waves ! idx,
                         max 0 (?subqs ! idx - dict_get u (wave_key b off idx) 0),
                         wave_key b off idx)"
      unfolding sl by auto
    have "(off = 0 \<or> off = 1) \<and> idx < length waves \<and> snd (snd x) = wave_key b off idx
        \<and> wave_subquota c b n off idx L = Some (?subqs ! idx)
        \<and> fst (snd x) = max 0 (?subqs ! idx - dict_get u (snd (snd x)) 0)"
      using assms(2) idx w[of idx] by (simp add: x)
    then show "slot_ok c b n L u x" unfolding slot_ok_def by blast
  qed
qed

lemma horizon_keys_distinct:
  "distinct (map (wave_key b 0) [0..<length waves] @ map (wave_key b 1) [0..<length waves])"
proof -
  have inj: "inj_on (wave_key b off) (set [0..<length waves])" for off
  proof (rule inj_onI)
    fix i j assume "i \<in> set [0..<length waves]" "j \<in> set [0..<length waves]"
      and "wave_key b off i = wave_key b off j"
    then show "i = j" using wave_key_inj[of b off i off j] by simp
  qed
  have a: "distinct (map (wave_key b off) [0..<length waves])" for off
    using inj[of off] by (simp add: distinct_map)
  have ne: "wave_key b 0 i \<noteq> wave_key b 1 j" if "i < length waves" "j < length waves" for i j
    using wave_key_inj[of b 0 i 1 j] that by auto
  have "set (map (wave_key b 0) [0..<length waves]) \<inter> set (map (wave_key b 1) [0..<length waves]) = {}"
  proof (rule ccontr)
    assume "set (map (wave_key b 0) [0..<length waves]) \<inter> set (map (wave_key b 1) [0..<length waves]) \<noteq> {}"
    then obtain k where "k \<in> set (map (wave_key b 0) [0..<length waves])"
      "k \<in> set (map (wave_key b 1) [0..<length waves])" by blast
    then obtain i j where "i < length waves" "j < length waves" "k = wave_key b 0 i" "k = wave_key b 1 j"
      by auto
    then show False using ne by metis
  qed
  then show ?thesis using a[of 0] a[of 1] by (simp only: distinct_append simp_thms)
qed

lemma fold_fill_slot_length:
  fixes st :: "'c fill_state"
  shows "length (fst (fold fill_slot slots st)) \<le> length (fst st)"
proof -
  have "out_ext (\<lambda>t. True) st (fold fill_slot slots st)"
    by (rule fold_fill_slot_out_ext) simp
  then obtain ext :: "('c \<times> int) list"
    where "fst (fold fill_slot slots st) @ rev (map fst ext) = fst st"
    by (auto simp: out_ext_def)
  then have "length (fst (fold fill_slot slots st)) + length (rev (map fst ext)) = length (fst st)"
    by (metis length_append)
  then show ?thesis by linarith
qed

lemma plan_ledger_step:
  assumes "ORPlanner_plan self cs rs now = Inr (out, self')"
  shows "ledger_step (cap self) (next_8am_at_or_after (now + 24)) (int (length rs)) (length cs)
           (used self) (used self')"
    and "cap self' = cap self"
  using assms
proof (atomize (full), cases rule: plan_Inr_cases)
  case empty
  then show "ledger_step (cap self) (next_8am_at_or_after (now + 24)) (int (length rs)) (length cs)
           (used self) (used self') \<and> cap self' = cap self"
    by (simp add: ledger_step_refl)
next
  case (placed slots0 slots1 u')
  let ?b = "next_8am_at_or_after (now + 24)"
  let ?n = "int (length rs)"
  let ?L = "length cs"
  let ?st2 = "fold fill_slot (slots0 @ slots1) (cs, used self, [])"
  have st2: "?st2 = fold fill_slot slots1 (fold fill_slot slots0 (cs, used self, []))"
    by simp
  have L: "0 < ?L" using placed(1) by simp
  have k0: "map (\<lambda>sl. snd (snd sl)) slots0 = map (wave_key ?b 0) [0..<length waves]"
    and ok0: "\<forall>sl\<in>set slots0. slot_ok (cap self) ?b ?n ?L (used self) sl"
    using horizon_day_slot_ok[OF placed(2)] by simp_all
  have k1: "map (\<lambda>sl. snd (snd sl)) slots1 = map (wave_key ?b 1) [0..<length waves]"
    and ok1: "\<forall>sl\<in>set slots1. slot_ok (cap self) ?b ?n ?L (used self) sl"
    using horizon_day_slot_ok[OF placed(3)] by simp_all
  have d: "distinct (map (\<lambda>sl. snd (snd sl)) (slots0 @ slots1))"
    using horizon_keys_distinct[of ?b] by (simp add: k0 k1)
  have ok: "\<forall>sl\<in>set (slots0 @ slots1). slot_ok (cap self) ?b ?n ?L (used self) sl"
    using ok0 ok1 by auto
  have a: "ledger_step (cap self) ?b ?n ?L (used self) (fst (snd ?st2))"
    by (rule fill_slots_ledger_step[OF L d ok])
  have len: "length (fst ?st2) \<le> ?L"
    using fold_fill_slot_length[of "slots0 @ slots1" "(cs, used self, [])"] by (simp del: fold_append)
  have r: "roll (cap self) ?b ?n 2 ?st2 = Inr ([], u', out)" using placed(4) st2 by simp
  have b: "ledger_step (cap self) ?b ?n ?L (fst (snd ?st2)) u'"
    using roll_ledger_step[OF r _ len] by simp
  show "ledger_step (cap self) ?b ?n ?L (used self) (used self') \<and> cap self' = cap self"
    using ledger_step_trans[OF a b] placed(5) by simp
qed


text \<open>
  C6. When \<open>plan\<close> of the admission-wave planner is called twice with the same pending
  cases, re-plan list and simulation time, no ledger bucket ever decreases, and every
  bucket that the two calls increased holds a count within the wave sub-quota computed
  for that bucket; for the buckets of the two-day horizon (whose sub-quota is the same in
  both calls) the count after the second call is at most the larger of the sub-quota and
  the count before the first call: what the first call placed is subtracted from the
  room of the second.
\<close>

theorem plan_twice_within_subquota:
  assumes "ORPlanner_plan self0 cs rs now = Inr (out1, self1)"
    and "ORPlanner_plan self1 cs rs now = Inr (out2, self2)"
    and "b = next_8am_at_or_after (now + 24)"
  shows "(\<forall>key. dict_get (used self0) key 0 \<le> dict_get (used self1) key 0
              \<and> dict_get (used self1) key 0 \<le> dict_get (used self2) key 0
              \<and> (dict_get (used self2) key 0 = dict_get (used self0) key 0
                  \<or> within_subquota (cap self0) b (int (length rs)) (length cs) key
                       (dict_get (used self2) key 0)))
       \<and> (\<forall>off i s. (off = 0 \<or> off = 1) \<and> i < length waves
              \<and> wave_subquota (cap self0) b (int (length rs)) off i (length cs) = Some s
            \<longrightarrow> dict_get (used self2) (wave_key b off i) 0
                  \<le> max (dict_get (used self0) (wave_key b off i) 0) s)"
proof -
  let ?c = "cap self0" and ?n = "int (length rs)" and ?L = "length cs"
  have s1: "ledger_step ?c b ?n ?L (used self0) (used self1)"
    using plan_ledger_step(1)[OF assms(1)] assms(3) by simp
  have c1: "cap self1 = ?c" using plan_ledger_step(2)[OF assms(1)] .
  have s2: "ledger_step ?c b ?n ?L (used self1) (used self2)"
    using plan_ledger_step(1)[OF assms(2)] assms(3) c1 by simp
  have s12: "ledger_step ?c b ?n ?L (used self0) (used self2)"
    using ledger_step_trans[OF s1 s2] .
  have mono: "dict_get u key 0 \<le> dict_get u' key 0" if "ledger_step ?c b ?n ?L u u'" for u u' key
    using that unfolding ledger_step_def by (metis less_imp_le order_refl)
  have A: "\<forall>key. dict_get (used self0) key 0 \<le> dict_get (used self1) key 0
              \<and> dict_get (used self1) key 0 \<le> dict_get (used self2) key 0
              \<and> (dict_get (used self2) key 0 = dict_get (used self0) key 0
                  \<or> within_subquota ?c b ?n ?L key (dict_get (used self2) key 0))"
    using mono[OF s1] mono[OF s2] s12 unfolding ledger_step_def by blast
  have B: "dict_get (used self2) (wave_key b off i) 0
                  \<le> max (dict_get (used self0) (wave_key b off i) 0) s"
    if h: "off = 0 \<or> off = 1" "i < length waves" "wave_subquota ?c b ?n off i ?L = Some s"
    for off i s
  proof -
    let ?k = "wave_key b off i"
    consider "dict_get (used self2) ?k 0 = dict_get (used self0) ?k 0"
      | "within_subquota ?c b ?n ?L ?k (dict_get (used self2) ?k 0)"
      using A by blast
    then show ?thesis
    proof cases
      case 1 then show ?thesis by simp
    next
      case 2
      then obtain off' i' m s' where w: "0 \<le> off'" "i' < length waves" "off' < 2 \<longrightarrow> m = ?L"
        "?k = wave_key b off' i'" "wave_subquota ?c b ?n off' i' m = Some s'"
        "dict_get (used self2) ?k 0 \<le> s'"
        unfolding within_subquota_def by blast
      have e: "off = off' \<and> i = i'" using wave_key_inj[OF w(4) h(2) w(2)] .
      then have "m = ?L" using w(3) h(1) by auto
      then have "s' = s" using w(5) h(3) e by simp
      then show ?thesis using w(6) by simp
    qed
  qed
  show ?thesis using A B by blast
qed

theorem plan_twice_within_subquota_witness:
  "\<exists>out1 self1 out2 self2.
      ORPlanner_plan ORPlanner_init [0..<30] [] 0 = Inr (out1, self1)
    \<and> ORPlanner_plan self1 [0..<30] [] 0 = Inr (out2, self2)
    \<and> wave_key 32 0 1 = (0, 2, 10)
    \<and> wave_subquota (cap ORPlanner_init) 32 0 0 1 30 = Some 13
    \<and> dict_get (used self1) (0, 2, 10) 0 = 9
    \<and> dict_get (used self2) (0, 2, 10) 0 \<le> 13"
proof -
  obtain out1 self1 where p1: "ORPlanner_plan ORPlanner_init [0..<30] [] 0 = Inr (out1, self1)"
    using plan_ok[OF init_cap_complete] by blast
  have c1: "cap self1 = cap ORPlanner_init" using plan_ledger_step(2)[OF p1] .
  then have "cap_complete (cap self1)" using init_cap_complete by simp
  then obtain out2 self2 where p2: "ORPlanner_plan self1 [0..<30] [] 0 = Inr (out2, self2)"
    using plan_ok by blast
  have b: "(32 :: int) = next_8am_at_or_after (0 + 24)"
    by (simp add: next_8am_at_or_after_def py_int_def py_fmod_def)
  have k: "wave_key 32 0 1 = (0, 2, 10)"
    by (simp add: wave_key_def waves_def dow_1_to_7_def)
  have q: "wave_subquota (cap ORPlanner_init) 32 (int (length ([] :: nat list))) 0 1
             (length [0..<30]) = Some 13"
    by (simp add: wave_subquota_def ORPlanner_init_def daily_quota_def WEEKLY_CAP_def dow_1_to_7_def
        adjust_quota_def split_quota_def wave_frac_def py_int_def sorted_reverse_def Let_def)
  have u0: "dict_get (used ORPlanner_init) (0, 2, 10) 0 = 0"
    by (simp add: ORPlanner_init_def dict_get_def)
  have "map_sum id (\<lambda>r. dict_get (used (snd r)) (0, 2, 10) 0)
          (ORPlanner_plan ORPlanner_init [0..<30] [] 0) = Inr 9"
    by code_simp
  then have u1: "dict_get (used self1) (0, 2, 10) 0 = 9" using p1 by simp
  have w: "(0 :: int) = 0 \<or> (0 :: int) = 1" "1 < length waves" by (simp_all add: waves_def)
  have "dict_get (used self2) (wave_key 32 0 1) 0
          \<le> max (dict_get (used ORPlanner_init) (wave_key 32 0 1) 0) 13"
    using plan_twice_within_subquota[OF p1 p2 b] w q by blast
  then have "dict_get (used self2) (0, 2, 10) 0 \<le> 13" using k u0 by simp
  then show ?thesis using p1 p2 k q u1 by auto
qed

end
